theory Spec2Isabelle
  imports Complex_Main "HOL-Library.Char_ord" "HOL-Library.List_Lexorder"
    "HOL-Library.Option_ord"
begin

section \<open>SQL values and comparisons\<close>

text \<open>
  The views of \<^verbatim>\<open>scripts/create_analysis_views.py\<close> are SQLite queries. A nullable
  column is an \<open>option\<close>; a \<^verbatim>\<open>TEXT\<close> column holds a \<open>string\<close>, compared
  bytewise (lexicographically) as SQLite's default collation does. A comparison with
  \<^verbatim>\<open>NULL\<close> is never true, so a \<^verbatim>\<open>WHERE\<close> conjunct is modelled by the
  condition "the comparison is true".
\<close>

definition sql_eq :: "'a option \<Rightarrow> 'a option \<Rightarrow> bool" where
  "sql_eq a b = (case (a, b) of (Some x, Some y) \<Rightarrow> x = y | _ \<Rightarrow> False)"

definition sql_ne :: "'a option \<Rightarrow> 'a option \<Rightarrow> bool" where
  "sql_ne a b = (case (a, b) of (Some x, Some y) \<Rightarrow> x \<noteq> y | _ \<Rightarrow> False)"

definition sql_ge :: "'a::linorder option \<Rightarrow> 'a option \<Rightarrow> bool" where
  "sql_ge a b = (case (a, b) of (Some x, Some y) \<Rightarrow> y \<le> x | _ \<Rightarrow> False)"

definition sql_not_in :: "'a option \<Rightarrow> 'a option list \<Rightarrow> bool" where
  "sql_not_in a xs = (xs = [] \<or> (a \<noteq> None \<and> None \<notin> set xs \<and> a \<notin> set xs))"

section \<open>Tables\<close>

text \<open>The columns of \<^verbatim>\<open>municipal_changes\<close> that the views read.\<close>

record municipal_change =
  old_bfs_number :: "string option"
  old_name :: "string option"
  new_bfs_number :: "string option"
  new_name :: "string option"
  mutation_date :: "string option"

section \<open>True splits\<close>

text \<open>
  \<^verbatim>\<open>true_splits\<close>: \<^verbatim>\<open>SELECT DISTINCT old_bfs_number FROM municipal_changes mc1
  WHERE old_bfs_number != new_bfs_number AND EXISTS (SELECT 1 FROM municipal_changes mc2
  WHERE mc2.old_bfs_number = mc1.old_bfs_number AND mc2.new_bfs_number != mc1.new_bfs_number
  AND mc2.mutation_date = mc1.mutation_date AND mc2.old_bfs_number != mc2.new_bfs_number)\<close>
\<close>

definition true_splits :: "municipal_change list \<Rightarrow> string option list" where
  "true_splits municipal_changes =
     remdups [old_bfs_number mc1. mc1 \<leftarrow> municipal_changes,
        sql_ne (old_bfs_number mc1) (new_bfs_number mc1) \<and>
        (\<exists>mc2 \<in> set municipal_changes.
           sql_eq (old_bfs_number mc2) (old_bfs_number mc1) \<and>
           sql_ne (new_bfs_number mc2) (new_bfs_number mc1) \<and>
           sql_eq (mutation_date mc2) (mutation_date mc1) \<and>
           sql_ne (old_bfs_number mc2) (new_bfs_number mc2))]"

section \<open>Municipalities that appear in voting data\<close>

record voting =
  voting_id :: int
  voting_date :: string

record proposal =
  proposal_id :: int
  p_voting_id :: int
  title_de :: "string option"
  title_fr :: "string option"
  title_it :: "string option"
  angenommen :: "bool option"

record voting_result =
  vr_voting_id :: int
  vr_proposal_id :: int
  geo_level :: string
  geo_id :: string
  geo_name :: "string option"
  ja_stimmen_absolut :: "int option"
  nein_stimmen_absolut :: "int option"
  gueltige_stimmen :: "int option"
  eingelegte_stimmzettel :: "int option"
  anzahl_stimmberechtigte :: "int option"

record vm_row =
  bfs :: string
  name :: "string option"
  vm_first_appearance :: string

text \<open>
  \<^verbatim>\<open>voting_municipalities\<close>: \<^verbatim>\<open>SELECT DISTINCT geo_id, geo_name, MIN(v.voting_date)
  FROM voting_results vr INNER JOIN votings v ON vr.voting_id = v.voting_id
  WHERE vr.geo_level = 'municipality' GROUP BY geo_id, geo_name\<close>. One row per pair of
  id and name; \<^verbatim>\<open>GROUP BY\<close> puts equal names, and \<^verbatim>\<open>NULL\<close> names, together.
\<close>

definition voting_municipalities :: "voting_result list \<Rightarrow> voting list \<Rightarrow> vm_row list" where
  "voting_municipalities voting_results votings =
     (let joined = [(vr, v). vr \<leftarrow> voting_results, v \<leftarrow> votings,
                      vr_voting_id vr = voting_id v, geo_level vr = ''municipality'']
      in [\<lparr>bfs = fst k, name = snd k,
           vm_first_appearance =
             Min (set [voting_date v. (vr, v) \<leftarrow> joined, (geo_id vr, geo_name vr) = k])\<rparr>.
          k \<leftarrow> remdups [(geo_id vr, geo_name vr). (vr, v) \<leftarrow> joined]])"

section \<open>Merger chains\<close>

record chain_row =
  original_bfs :: string
  original_name :: "string option"
  analysis_bfs :: "string option"
  analysis_name :: "string option"
  first_appearance :: string
  depth :: nat

text \<open>
  The recursive arm of \<^verbatim>\<open>merger_chain\<close>, run on one row \<open>mc_recursive\<close> of the
  recursive table: the join with \<^verbatim>\<open>municipal_changes mch\<close> on
  \<^verbatim>\<open>mc_recursive.analysis_bfs = mch.old_bfs_number\<close> under the four conditions of
  its \<^verbatim>\<open>WHERE\<close> clause.
\<close>

definition merger_chain_step :: "municipal_change list \<Rightarrow> chain_row \<Rightarrow> chain_row list" where
  "merger_chain_step municipal_changes mc_recursive =
     [\<lparr>original_bfs = original_bfs mc_recursive,
       original_name = original_name mc_recursive,
       analysis_bfs = new_bfs_number mch,
       analysis_name = new_name mch,
       first_appearance = first_appearance mc_recursive,
       depth = depth mc_recursive + 1\<rparr>.
      mch \<leftarrow> municipal_changes,
      sql_eq (analysis_bfs mc_recursive) (old_bfs_number mch) \<and>
      depth mc_recursive < 10 \<and>
      sql_ne (old_bfs_number mch) (new_bfs_number mch) \<and>
      sql_ge (mutation_date mch) (Some (first_appearance mc_recursive)) \<and>
      sql_not_in (analysis_bfs mc_recursive) (true_splits municipal_changes)]"

text \<open>
  SQLite evaluates \<^verbatim>\<open>WITH RECURSIVE ... UNION ...\<close> with a queue: the rows of the
  initial select are queued; while the queue is not empty one row is taken out, the
  recursive select is run with that row as the whole recursive table, and those of its
  results that were never queued before are queued. The rows ever queued are the
  table. Nothing in this loop bounds the number of rounds: it ends because of the
  condition \<^verbatim>\<open>depth < 10\<close> in the recursive select.
\<close>

function merger_chain_loop ::
  "municipal_change list \<Rightarrow> chain_row list \<Rightarrow> chain_row list \<Rightarrow> chain_row list" where
  "merger_chain_loop municipal_changes [] seen = seen"
| "merger_chain_loop municipal_changes (r # queue) seen =
     (let new = filter (\<lambda>x. x \<notin> set seen) (remdups (merger_chain_step municipal_changes r))
      in merger_chain_loop municipal_changes (queue @ new) (seen @ new))"
  by pat_completeness auto
termination
proof (relation "measure (\<lambda>(mcs, queue, seen).
                    \<Sum>x\<leftarrow>queue. Suc (length mcs) ^ (11 - depth x))")
  show "wf (measure (\<lambda>(mcs, queue, seen).
                    \<Sum>x\<leftarrow>queue. Suc (length mcs) ^ (11 - depth x)))"
    by simp
next
  fix municipal_changes :: "municipal_change list"
  fix r :: chain_row and queue seen new :: "chain_row list"
  assume new: "new = filter (\<lambda>x. x \<notin> set seen) (remdups (merger_chain_step municipal_changes r))"
  let ?n = "length municipal_changes"
  let ?w = "\<lambda>x::chain_row. Suc ?n ^ (11 - depth x)"
  have len: "length new \<le> ?n"
  proof -
    have "length new \<le> length (remdups (merger_chain_step municipal_changes r))"
      unfolding new by (rule length_filter_le)
    also have "\<dots> \<le> length (merger_chain_step municipal_changes r)"
      by (rule length_remdups_leq)
    also have "\<dots> \<le> ?n"
    proof -
      have "length (concat (map (\<lambda>x. if P x then [f x] else []) xs)) \<le> length xs"
        for P and f :: "municipal_change \<Rightarrow> chain_row" and xs
        by (induction xs) auto
      then show ?thesis
        unfolding merger_chain_step_def .
    qed
    finally show ?thesis .
  qed
  have "(\<Sum>x\<leftarrow>new. ?w x) < ?w r"
  proof (cases "depth r < 10")
    case False
    then have "merger_chain_step municipal_changes r = []"
      unfolding merger_chain_step_def by simp
    then show ?thesis by (simp add: new)
  next
    case True
    have "\<forall>x \<in> set new. depth x = Suc (depth r)"
      unfolding new merger_chain_step_def by auto
    then have "(\<Sum>x\<leftarrow>new. ?w x) = (\<Sum>x\<leftarrow>new. Suc ?n ^ (10 - depth r))"
      by (intro arg_cong[where f = sum_list] map_cong) auto
    also have "\<dots> = length new * Suc ?n ^ (10 - depth r)"
      by (simp add: sum_list_triv)
    also have "\<dots> \<le> ?n * Suc ?n ^ (10 - depth r)"
      using len by simp
    also have "\<dots> < Suc ?n * Suc ?n ^ (10 - depth r)"
      by simp
    also have "\<dots> = ?w r"
    proof -
      from True have "11 - depth r = Suc (10 - depth r)" by arith
      then show ?thesis by simp
    qed
    finally show ?thesis .
  qed
  then show "((municipal_changes, queue @ new, seen @ new), (municipal_changes, r # queue, seen))
          \<in> measure (\<lambda>(mcs, queue, seen). \<Sum>x\<leftarrow>queue. Suc (length mcs) ^ (11 - depth x))"
    by simp
qed

text \<open>
  The initial select of \<^verbatim>\<open>merger_chain\<close> makes one row of depth 0 from each row
  of \<^verbatim>\<open>voting_municipalities\<close>.
\<close>

definition merger_chain_base :: "vm_row \<Rightarrow> chain_row" where
  "merger_chain_base vm =
     \<lparr>original_bfs = bfs vm, original_name = name vm,
      analysis_bfs = Some (bfs vm), analysis_name = name vm,
      first_appearance = vm_first_appearance vm, depth = 0\<rparr>"

text \<open>\<^verbatim>\<open>merger_chain\<close>: the queue starts with the initial rows, without repetitions.\<close>

definition merger_chain :: "municipal_change list \<Rightarrow> vm_row list \<Rightarrow> chain_row list" where
  "merger_chain municipal_changes vms =
     (let initial = remdups (map merger_chain_base vms)
      in merger_chain_loop municipal_changes initial initial)"

section \<open>The stable municipality mapping\<close>

record mapping_row =
  m_original_bfs :: string
  m_original_name :: "string option"
  m_analysis_bfs :: "string option"
  m_analysis_name :: "string option"
  m_first_appearance :: string
  merge_depth :: nat

text \<open>\<^verbatim>\<open>MAX\<close> over a column without \<^verbatim>\<open>NULL\<close>s: \<^verbatim>\<open>NULL\<close> when there is no row.\<close>

fun sql_max :: "nat list \<Rightarrow> nat option" where
  "sql_max [] = None"
| "sql_max (x # xs) = Some (fold max xs x)"

text \<open>
  The rows of a group of \<^verbatim>\<open>merger_chain\<close> (one \<^verbatim>\<open>original_bfs\<close>) on which
  \<^verbatim>\<open>MAX(depth)\<close> is attained. In SQLite the bare columns of an aggregate query
  with one \<^verbatim>\<open>MAX\<close> take their values from such a row, in the select list and in
  \<^verbatim>\<open>HAVING\<close> alike; when several rows attain the maximum, SQLite does not say
  which one is taken.
\<close>

definition max_depth_rows :: "chain_row list \<Rightarrow> string \<Rightarrow> chain_row list" where
  "max_depth_rows chain b =
     (let grp = filter (\<lambda>r. original_bfs r = b) chain
      in filter (\<lambda>r. Some (depth r) = sql_max (map depth grp)) grp)"

text \<open>
  The final select of \<^verbatim>\<open>v_stable_municipality_mapping\<close>:
  \<^verbatim>\<open>SELECT original_bfs, original_name, analysis_bfs, analysis_name, first_appearance,
  MAX(depth) as merge_depth FROM merger_chain GROUP BY original_bfs
  HAVING depth = (SELECT MAX(depth) FROM merger_chain mc2
  WHERE mc2.original_bfs = merger_chain.original_bfs)\<close>.
  The model takes the first row of the table that attains the maximum.
\<close>

definition mapping_columns :: "chain_row \<Rightarrow> mapping_row" where
  "mapping_columns r =
     \<lparr>m_original_bfs = original_bfs r,
      m_original_name = original_name r,
      m_analysis_bfs = analysis_bfs r,
      m_analysis_name = analysis_name r,
      m_first_appearance = first_appearance r,
      merge_depth = depth r\<rparr>"

definition v_stable_municipality_mapping :: "chain_row list \<Rightarrow> mapping_row list" where
  "v_stable_municipality_mapping chain =
     concat [case max_depth_rows chain b of
               [] \<Rightarrow> []
             | r # _ \<Rightarrow>
                 if Some (depth r) =
                    sql_max [depth mc2. mc2 \<leftarrow> chain, original_bfs mc2 = original_bfs r]
                 then [mapping_columns r]
                 else [].
             b \<leftarrow> remdups (map original_bfs chain)]"

section \<open>The older mapping view\<close>

text \<open>
  \<^verbatim>\<open>v_municipality_mapping\<close> of \<^verbatim>\<open>scripts/create_merger_views_old.py\<close> follows every
  change of id, whatever its date and whether or not it is a split. Its recursive query
  \<^verbatim>\<open>successor_chain\<close> has the same shape as \<^verbatim>\<open>merger_chain\<close>, with the same
  condition \<^verbatim>\<open>merge_depth < 10\<close>.
\<close>

record successor_row =
  s_original_bfs :: string
  s_original_name :: "string option"
  current_bfs :: "string option"
  current_name :: "string option"
  merge_depth_so_far :: nat

definition successor_chain_base :: "voting_result \<Rightarrow> successor_row" where
  "successor_chain_base vr =
     \<lparr>s_original_bfs = geo_id vr, s_original_name = geo_name vr,
      current_bfs = Some (geo_id vr), current_name = geo_name vr,
      merge_depth_so_far = 0\<rparr>"

definition successor_chain_step :: "municipal_change list \<Rightarrow> successor_row \<Rightarrow> successor_row list" where
  "successor_chain_step municipal_changes sc =
     [\<lparr>s_original_bfs = s_original_bfs sc,
       s_original_name = s_original_name sc,
       current_bfs = new_bfs_number mc,
       current_name = new_name mc,
       merge_depth_so_far = merge_depth_so_far sc + 1\<rparr>.
      mc \<leftarrow> municipal_changes,
      sql_eq (current_bfs sc) (old_bfs_number mc) \<and>
      merge_depth_so_far sc < 10 \<and>
      sql_ne (old_bfs_number mc) (new_bfs_number mc)]"

function successor_chain_loop ::
  "municipal_change list \<Rightarrow> successor_row list \<Rightarrow> successor_row list \<Rightarrow> successor_row list" where
  "successor_chain_loop municipal_changes [] seen = seen"
| "successor_chain_loop municipal_changes (r # queue) seen =
     (let new = filter (\<lambda>x. x \<notin> set seen) (remdups (successor_chain_step municipal_changes r))
      in successor_chain_loop municipal_changes (queue @ new) (seen @ new))"
  by pat_completeness auto
termination
proof (relation "measure (\<lambda>(mcs, queue, seen).
                    \<Sum>x\<leftarrow>queue. Suc (length mcs) ^ (11 - merge_depth_so_far x))")
  show "wf (measure (\<lambda>(mcs, queue, seen).
                    \<Sum>x\<leftarrow>queue. Suc (length mcs) ^ (11 - merge_depth_so_far x)))"
    by simp
next
  fix municipal_changes :: "municipal_change list"
  fix r :: successor_row and queue seen new :: "successor_row list"
  assume new: "new = filter (\<lambda>x. x \<notin> set seen)
                       (remdups (successor_chain_step municipal_changes r))"
  let ?n = "length municipal_changes"
  let ?k = "merge_depth_so_far r"
  have "length (concat (map (\<lambda>x. if P x then [f x] else []) xs)) \<le> length xs"
    for P and f :: "municipal_change \<Rightarrow> successor_row" and xs
    by (induction xs) auto
  then have "length (successor_chain_step municipal_changes r) \<le> ?n"
    unfolding successor_chain_step_def .
  moreover have "length new \<le> length (successor_chain_step municipal_changes r)"
    unfolding new by (rule order_trans[OF length_filter_le length_remdups_leq])
  ultimately have len: "length new \<le> ?n" by simp
  have "(\<Sum>x\<leftarrow>new. Suc ?n ^ (11 - merge_depth_so_far x)) < Suc ?n ^ (11 - ?k)"
  proof (cases "?k < 10")
    case False
    then have "successor_chain_step municipal_changes r = []"
      unfolding successor_chain_step_def by simp
    then show ?thesis by (simp add: new)
  next
    case True
    then have e: "11 - ?k = Suc (10 - ?k)" by arith
    have "\<forall>x \<in> set new. merge_depth_so_far x = Suc ?k"
      unfolding new successor_chain_step_def by auto
    then have "(\<Sum>x\<leftarrow>new. Suc ?n ^ (11 - merge_depth_so_far x)) =
               (\<Sum>x\<leftarrow>new. Suc ?n ^ (10 - ?k))"
      by (intro arg_cong[where f = sum_list] map_cong) auto
    also have "\<dots> = length new * Suc ?n ^ (10 - ?k)"
      by (simp add: sum_list_triv)
    also have "\<dots> \<le> ?n * Suc ?n ^ (10 - ?k)"
      using len by simp
    also have "\<dots> < Suc ?n ^ (11 - ?k)"
      unfolding e by simp
    finally show ?thesis .
  qed
  then show "((municipal_changes, queue @ new, seen @ new), (municipal_changes, r # queue, seen))
          \<in> measure (\<lambda>(mcs, queue, seen).
                \<Sum>x\<leftarrow>queue. Suc (length mcs) ^ (11 - merge_depth_so_far x))"
    by simp
qed

text \<open>
  \<^verbatim>\<open>successor_chain\<close>: the initial select is \<^verbatim>\<open>SELECT DISTINCT geo_id, geo_name,
  geo_id, geo_name, 0 FROM voting_results WHERE geo_level = 'municipality'\<close>.
\<close>

definition successor_chain :: "municipal_change list \<Rightarrow> voting_result list \<Rightarrow> successor_row list" where
  "successor_chain municipal_changes voting_results =
     (let initial = remdups [successor_chain_base vr. vr \<leftarrow> voting_results,
                               geo_level vr = ''municipality'']
      in successor_chain_loop municipal_changes initial initial)"

record old_mapping_row =
  o_original_bfs :: string
  o_original_name :: "string option"
  o_current_bfs :: "string option"
  o_current_name :: "string option"
  total_mergers :: nat

text \<open>
  The final select of \<^verbatim>\<open>v_municipality_mapping\<close>, \<^verbatim>\<open>GROUP BY original_bfs\<close> with
  \<^verbatim>\<open>MAX(merge_depth) as total_mergers\<close> and the same \<^verbatim>\<open>HAVING\<close> as the newer view.
\<close>

definition v_municipality_mapping :: "successor_row list \<Rightarrow> old_mapping_row list" where
  "v_municipality_mapping chain =
     concat [case (let grp = filter (\<lambda>r. s_original_bfs r = b) chain
                   in filter (\<lambda>r. Some (merge_depth_so_far r) =
                                    sql_max (map merge_depth_so_far grp)) grp) of
               [] \<Rightarrow> []
             | r # _ \<Rightarrow>
                 if Some (merge_depth_so_far r) =
                    sql_max [merge_depth_so_far sc2. sc2 \<leftarrow> chain,
                               s_original_bfs sc2 = s_original_bfs r]
                 then [\<lparr>o_original_bfs = s_original_bfs r,
                        o_original_name = s_original_name r,
                        o_current_bfs = current_bfs r,
                        o_current_name = current_name r,
                        total_mergers = merge_depth_so_far r\<rparr>]
                 else [].
             b \<leftarrow> remdups (map s_original_bfs chain)]"

section \<open>The analysis view of the voting results\<close>

record analysis_result =
  a_voting_id :: int
  a_voting_date :: string
  a_proposal_id :: int
  a_title_de :: "string option"
  a_title_fr :: "string option"
  a_title_it :: "string option"
  a_angenommen :: "bool option"
  municipality_id :: "string option"
  municipality_name :: "string option"
  a_ja_stimmen_absolut :: "int option"
  a_nein_stimmen_absolut :: "int option"
  a_gueltige_stimmen :: "int option"
  a_eingelegte_stimmzettel :: "int option"
  a_anzahl_stimmberechtigte :: "int option"
  ja_prozent :: "rat option"
  stimmbeteiligung :: "rat option"
  source_municipality_count :: nat
  source_bfs_numbers :: string

text \<open>\<^verbatim>\<open>SUM\<close> skips \<^verbatim>\<open>NULL\<close>s and is \<^verbatim>\<open>NULL\<close> when nothing is left.\<close>

definition sql_sum :: "int option list \<Rightarrow> int option" where
  "sql_sum xs = (case [x. Some x \<leftarrow> xs] of [] \<Rightarrow> None | ys \<Rightarrow> Some (sum_list ys))"

text \<open>
  \<^verbatim>\<open>ROUND(x, 2)\<close> rounds to two decimals, halves away from zero. SQLite computes
  \<^verbatim>\<open>100.0 * a / b\<close> and the rounding in double precision; the model computes them
  in exact rational arithmetic.
\<close>

definition sql_round2 :: "rat \<Rightarrow> rat" where
  "sql_round2 x =
     (if 0 \<le> x then of_int \<lfloor>x * 100 + 1 / 2\<rfloor> / 100
      else - (of_int \<lfloor>- x * 100 + 1 / 2\<rfloor> / 100))"

text \<open>
  \<^verbatim>\<open>CASE WHEN SUM(d) > 0 THEN ROUND(100.0 * SUM(n) / SUM(d), 2) ELSE NULL END\<close>,
  as a function of the two sums.
\<close>

definition recalculated_percentage :: "int option \<Rightarrow> int option \<Rightarrow> rat option" where
  "recalculated_percentage n d =
     (case d of
        None \<Rightarrow> None
      | Some dv \<Rightarrow>
          if dv > 0
          then (case n of None \<Rightarrow> None
                | Some nv \<Rightarrow> Some (sql_round2 (100 * of_int nv / of_int dv)))
          else None)"

text \<open>\<^verbatim>\<open>GROUP_CONCAT\<close> joins with commas.\<close>

fun group_concat :: "string list \<Rightarrow> string" where
  "group_concat [] = []"
| "group_concat [x] = x"
| "group_concat (x # y # ys) = x @ '','' @ group_concat (y # ys)"

type_synonym analysis_key =
  "int \<times> string \<times> int \<times> string option \<times> string option \<times> string option \<times> bool option
   \<times> string option \<times> string option"

text \<open>The columns of the \<^verbatim>\<open>GROUP BY\<close> of \<^verbatim>\<open>v_voting_results_analysis\<close>.\<close>

definition analysis_group_key ::
  "voting \<times> proposal \<times> voting_result \<times> mapping_row \<Rightarrow> analysis_key" where
  "analysis_group_key j =
     (case j of (v, p, vr, m) \<Rightarrow>
        (voting_id v, voting_date v, proposal_id p, title_de p, title_fr p, title_it p,
         angenommen p, m_analysis_bfs m, m_analysis_name m))"

text \<open>
  The \<^verbatim>\<open>FROM ... WHERE\<close> part of the view: \<^verbatim>\<open>votings v INNER JOIN proposals p ON
  v.voting_id = p.voting_id INNER JOIN voting_results vr ON p.proposal_id = vr.proposal_id
  INNER JOIN v_stable_municipality_mapping m ON vr.geo_id = m.original_bfs
  WHERE vr.geo_level = 'municipality'\<close>.
\<close>

definition analysis_join ::
  "voting list \<Rightarrow> proposal list \<Rightarrow> voting_result list \<Rightarrow> mapping_row list \<Rightarrow>
   (voting \<times> proposal \<times> voting_result \<times> mapping_row) list" where
  "analysis_join votings proposals voting_results mapping =
     [(v, p, vr, m).
        v \<leftarrow> votings,
        p \<leftarrow> proposals, voting_id v = p_voting_id p,
        vr \<leftarrow> voting_results, proposal_id p = vr_proposal_id vr,
        m \<leftarrow> mapping, geo_id vr = m_original_bfs m,
        geo_level vr = ''municipality'']"

text \<open>One output row of the view, from a group key and the results of its group.\<close>

definition analysis_row :: "analysis_key \<Rightarrow> voting_result list \<Rightarrow> analysis_result" where
  "analysis_row k grp =
     (case k of (vid, vdate, pid, tde, tfr, tit, ang, abfs, aname) \<Rightarrow>
        \<lparr>a_voting_id = vid, a_voting_date = vdate, a_proposal_id = pid,
         a_title_de = tde, a_title_fr = tfr, a_title_it = tit, a_angenommen = ang,
         municipality_id = abfs, municipality_name = aname,
         a_ja_stimmen_absolut = sql_sum (map ja_stimmen_absolut grp),
         a_nein_stimmen_absolut = sql_sum (map nein_stimmen_absolut grp),
         a_gueltige_stimmen = sql_sum (map gueltige_stimmen grp),
         a_eingelegte_stimmzettel = sql_sum (map eingelegte_stimmzettel grp),
         a_anzahl_stimmberechtigte = sql_sum (map anzahl_stimmberechtigte grp),
         ja_prozent = recalculated_percentage
            (sql_sum (map ja_stimmen_absolut grp)) (sql_sum (map gueltige_stimmen grp)),
         stimmbeteiligung = recalculated_percentage
            (sql_sum (map eingelegte_stimmzettel grp))
            (sql_sum (map anzahl_stimmberechtigte grp)),
         source_municipality_count = length (remdups (map geo_id grp)),
         source_bfs_numbers = group_concat (remdups (map geo_id grp))\<rparr>)"

definition v_voting_results_analysis ::
  "voting list \<Rightarrow> proposal list \<Rightarrow> voting_result list \<Rightarrow> mapping_row list \<Rightarrow>
   analysis_result list" where
  "v_voting_results_analysis votings proposals voting_results mapping =
     (let joined = analysis_join votings proposals voting_results mapping
      in [analysis_row k [fst (snd (snd j)). j \<leftarrow> joined, analysis_group_key j = k].
          k \<leftarrow> remdups (map analysis_group_key joined)])"

text \<open>The whole pipeline of \<^verbatim>\<open>main\<close>: the mapping view and the analysis view of a database.\<close>

record database =
  votings :: "voting list"
  proposals :: "proposal list"
  voting_results :: "voting_result list"
  municipal_changes :: "municipal_change list"

definition stable_mapping_of :: "database \<Rightarrow> mapping_row list" where
  "stable_mapping_of db =
     v_stable_municipality_mapping
       (merger_chain (municipal_changes db)
          (voting_municipalities (voting_results db) (votings db)))"

definition analysis_results_of :: "database \<Rightarrow> analysis_result list" where
  "analysis_results_of db =
     v_voting_results_analysis (votings db) (proposals db) (voting_results db)
       (stable_mapping_of db)"

section \<open>The conservation check\<close>













section \<open>Import of the municipal changes\<close>

text \<open>
  \<^verbatim>\<open>scripts/import_municipal_changes.py\<close>. A cell of the sheet read by pandas is
  empty (\<^verbatim>\<open>NaN\<close>, \<^verbatim>\<open>NaT\<close>), a number, a text or a date. A row has the ten columns
  that \<^verbatim>\<open>read_excel_with_validation\<close> names by position.
\<close>

datatype cell = NaN | Num int | Str string | Timestamp nat nat nat

record change_record =
  mutation_number :: cell
  old_canton :: cell
  old_district_number :: cell
  df_old_bfs_number :: cell
  df_old_name :: cell
  new_canton :: cell
  new_district_number :: cell
  df_new_bfs_number :: cell
  df_new_name :: cell
  df_mutation_date :: cell







record flagged_change = change_record +
  is_merger :: bool
  is_split :: bool
  is_rename :: bool
  is_reassignment :: bool











section \<open>Example data\<close>

definition change :: "string \<Rightarrow> string \<Rightarrow> string \<Rightarrow> municipal_change" where
  "change old new d =
     \<lparr>old_bfs_number = Some old, old_name = Some (''n'' @ old),
      new_bfs_number = Some new, new_name = Some (''n'' @ new),
      mutation_date = Some d\<rparr>"

text \<open>
  Municipality 1 splits into 2 and 3 on one day; municipality 4 becomes 5 and, two years
  later, 6.
\<close>

definition split_changes :: "municipal_change list" where
  "split_changes =
     [change ''1'' ''2'' ''20100101'', change ''1'' ''3'' ''20100101'',
      change ''4'' ''5'' ''20100101'', change ''4'' ''6'' ''20120101'']"

definition municipality_result ::
  "int \<Rightarrow> int \<Rightarrow> string \<Rightarrow> int \<Rightarrow> int \<Rightarrow> voting_result" where
  "municipality_result vid pid g yes valid =
     \<lparr>vr_voting_id = vid, vr_proposal_id = pid, geo_level = ''municipality'',
      geo_id = g, geo_name = Some (''n'' @ g),
      ja_stimmen_absolut = Some yes, nein_stimmen_absolut = Some (valid - yes),
      gueltige_stimmen = Some valid, eingelegte_stimmzettel = Some valid,
      anzahl_stimmberechtigte = Some (2 * valid)\<rparr>"

definition vote_2005 :: voting where
  "vote_2005 = \<lparr>voting_id = 1, voting_date = ''20050605''\<rparr>"

definition proposal_7 :: proposal where
  "proposal_7 =
     \<lparr>proposal_id = 7, p_voting_id = 1, title_de = Some ''Vorlage'', title_fr = None,
      title_it = None, angenommen = Some True\<rparr>"

text \<open>
  The end-to-end example of the specification: 1001 votes in 2005, merges into 2002 in
  2010, and 2002 merges into 3003 in 2015.
\<close>

definition lineage_db :: database where
  "lineage_db =
     \<lparr>votings = [vote_2005], proposals = [proposal_7],
      voting_results = [municipality_result 1 7 ''1001'' 40 100],
      municipal_changes =
        [change ''1001'' ''2002'' ''20100101'', change ''2002'' ''3003'' ''20150101'']\<rparr>"

text \<open>A synthetic cycle: 1 becomes 2 in 2010 and 2 becomes 1 again in 2011.\<close>

definition cycle_db :: database where
  "cycle_db =
     \<lparr>votings = [vote_2005], proposals = [proposal_7],
      voting_results = [municipality_result 1 7 ''1'' 40 100],
      municipal_changes =
        [change ''1'' ''2'' ''20100101'', change ''2'' ''1'' ''20110101'']\<rparr>"

text \<open>Municipalities 1 and 4 of \<open>split_changes\<close>, both voting in 2005.\<close>

definition split_db :: database where
  "split_db =
     \<lparr>votings = [vote_2005], proposals = [proposal_7],
      voting_results =
        [municipality_result 1 7 ''1'' 40 100, municipality_result 1 7 ''4'' 10 900],
      municipal_changes = split_changes\<rparr>"

text \<open>
  Two forward edges from municipality 4 on different dates (to 5 in 2010, to 6 in 2012):
  conflicting, and not a simultaneous split.
\<close>

definition conflict_db :: database where
  "conflict_db =
     \<lparr>votings = [vote_2005], proposals = [proposal_7],
      voting_results = [municipality_result 1 7 ''4'' 10 900],
      municipal_changes =
        [change ''4'' ''5'' ''20100101'', change ''4'' ''6'' ''20120101'']\<rparr>"

text \<open>
  The weighted-ratio example of the specification: municipality 1 with 90 yes of 100
  valid votes and municipality 2 with 10 yes of 900, both merged into 3 in 2010.
\<close>

definition ratio_db :: database where
  "ratio_db =
     \<lparr>votings = [vote_2005], proposals = [proposal_7],
      voting_results =
        [municipality_result 1 7 ''1'' 90 100, municipality_result 1 7 ''2'' 10 900],
      municipal_changes =
        [change ''1'' ''3'' ''20100101'', change ''2'' ''3'' ''20100101'']\<rparr>"




section \<open>Auxiliary functions of the proofs\<close>

text \<open>
  \<^verbatim>\<open>SUM\<close> is determined by two plain sums over the column: the number of values that
  are not \<^verbatim>\<open>NULL\<close>, and the total with \<^verbatim>\<open>NULL\<close> read as 0.
\<close>

definition null_as_zero :: "int option \<Rightarrow> int" where
  "null_as_zero x = (case x of None \<Rightarrow> 0 | Some v \<Rightarrow> v)"

definition not_null :: "int option \<Rightarrow> nat" where
  "not_null x = (case x of None \<Rightarrow> 0 | Some v \<Rightarrow> 1)"

section \<open>Properties of the true-split classification\<close>

lemma sql_eq_Some: "sql_eq a b \<longleftrightarrow> (\<exists>x. a = Some x \<and> b = Some x)"
  by (cases a; cases b) (auto simp: sql_eq_def)

lemma sql_ne_Some: "sql_ne a b \<longleftrightarrow> (\<exists>x y. a = Some x \<and> b = Some y \<and> x \<noteq> y)"
  by (cases a; cases b) (auto simp: sql_ne_def)

lemma sql_ge_Some: "sql_ge a b \<longleftrightarrow> (\<exists>x y. a = Some x \<and> b = Some y \<and> y \<le> x)"
  by (cases a; cases b) (auto simp: sql_ge_def)

lemma true_splits_not_null: "None \<notin> set (true_splits mcs)"
  by (auto simp: true_splits_def sql_ne_Some)

text \<open>
  C4. An id is a true split origin exactly when two records of \<^verbatim>\<open>municipal_changes\<close>
  have it as their old id, both change the id (old id different from new id), both carry
  the same mutation date, and their new ids differ. So an id whose id-changing records
  with different new ids all lie on different dates is not a true split origin.
  (In SQL two missing dates are not equal: records without a date never make a split.)
\<close>

theorem true_splits_iff_simultaneous:
  "(Some b \<in> set (true_splits mcs) \<longleftrightarrow>
     (\<exists>mc1 \<in> set mcs. \<exists>mc2 \<in> set mcs. \<exists>n1 n2 d.
        old_bfs_number mc1 = Some b \<and> old_bfs_number mc2 = Some b \<and>
        new_bfs_number mc1 = Some n1 \<and> new_bfs_number mc2 = Some n2 \<and>
        n1 \<noteq> b \<and> n2 \<noteq> b \<and> n1 \<noteq> n2 \<and>
        mutation_date mc1 = Some d \<and> mutation_date mc2 = Some d))
   \<and>
   ((\<forall>mc1 \<in> set mcs. \<forall>mc2 \<in> set mcs.
        old_bfs_number mc1 = Some b \<and> old_bfs_number mc2 = Some b \<and>
        sql_ne (old_bfs_number mc1) (new_bfs_number mc1) \<and>
        sql_ne (old_bfs_number mc2) (new_bfs_number mc2) \<and>
        new_bfs_number mc1 \<noteq> new_bfs_number mc2
        \<longrightarrow> mutation_date mc1 \<noteq> mutation_date mc2)
     \<longrightarrow> Some b \<notin> set (true_splits mcs))"
proof -
  let ?R = "\<exists>mc1 \<in> set mcs. \<exists>mc2 \<in> set mcs. \<exists>n1 n2 d.
        old_bfs_number mc1 = Some b \<and> old_bfs_number mc2 = Some b \<and>
        new_bfs_number mc1 = Some n1 \<and> new_bfs_number mc2 = Some n2 \<and>
        n1 \<noteq> b \<and> n2 \<noteq> b \<and> n1 \<noteq> n2 \<and>
        mutation_date mc1 = Some d \<and> mutation_date mc2 = Some d"
  have iff: "Some b \<in> set (true_splits mcs) \<longleftrightarrow> ?R" (is "?L \<longleftrightarrow> _")
  proof
    assume ?L
    then obtain mc1 mc2 where m: "mc1 \<in> set mcs" "mc2 \<in> set mcs"
      and o1: "old_bfs_number mc1 = Some b"
      and s1: "sql_ne (old_bfs_number mc1) (new_bfs_number mc1)"
      and o2: "sql_eq (old_bfs_number mc2) (old_bfs_number mc1)"
      and nn: "sql_ne (new_bfs_number mc2) (new_bfs_number mc1)"
      and dd: "sql_eq (mutation_date mc2) (mutation_date mc1)"
      and s2: "sql_ne (old_bfs_number mc2) (new_bfs_number mc2)"
      by (auto simp: true_splits_def)
    from o1 o2 have o2': "old_bfs_number mc2 = Some b" by (simp add: sql_eq_Some)
    from s1 o1 obtain n1 where n1: "new_bfs_number mc1 = Some n1" "n1 \<noteq> b"
      by (auto simp: sql_ne_Some)
    from s2 o2' obtain n2 where n2: "new_bfs_number mc2 = Some n2" "n2 \<noteq> b"
      by (auto simp: sql_ne_Some)
    from nn n1 n2 have "n1 \<noteq> n2" by (auto simp: sql_ne_Some)
    moreover from dd obtain d where "mutation_date mc1 = Some d" "mutation_date mc2 = Some d"
      by (auto simp: sql_eq_Some)
    ultimately show ?R using m o1 o2' n1 n2 by blast
  next
    assume ?R
    then obtain mc1 mc2 n1 n2 d where m: "mc1 \<in> set mcs" "mc2 \<in> set mcs"
      and f: "old_bfs_number mc1 = Some b" "old_bfs_number mc2 = Some b"
         "new_bfs_number mc1 = Some n1" "new_bfs_number mc2 = Some n2"
         "n1 \<noteq> b" "n2 \<noteq> b" "n1 \<noteq> n2"
         "mutation_date mc1 = Some d" "mutation_date mc2 = Some d"
      by blast
    have "sql_ne (old_bfs_number mc1) (new_bfs_number mc1)"
      "sql_eq (old_bfs_number mc2) (old_bfs_number mc1)"
      "sql_ne (new_bfs_number mc2) (new_bfs_number mc1)"
      "sql_eq (mutation_date mc2) (mutation_date mc1)"
      "sql_ne (old_bfs_number mc2) (new_bfs_number mc2)"
      using f by (auto simp: sql_eq_Some sql_ne_Some)
    with m f(1) show ?L
      unfolding true_splits_def by force
  qed
  have seq: "Some b \<notin> set (true_splits mcs)"
    if h: "\<forall>mc1 \<in> set mcs. \<forall>mc2 \<in> set mcs.
        old_bfs_number mc1 = Some b \<and> old_bfs_number mc2 = Some b \<and>
        sql_ne (old_bfs_number mc1) (new_bfs_number mc1) \<and>
        sql_ne (old_bfs_number mc2) (new_bfs_number mc2) \<and>
        new_bfs_number mc1 \<noteq> new_bfs_number mc2
        \<longrightarrow> mutation_date mc1 \<noteq> mutation_date mc2"
  proof
    assume "Some b \<in> set (true_splits mcs)"
    with iff obtain mc1 mc2 n1 n2 d where m: "mc1 \<in> set mcs" "mc2 \<in> set mcs"
      and f: "old_bfs_number mc1 = Some b" "old_bfs_number mc2 = Some b"
         "new_bfs_number mc1 = Some n1" "new_bfs_number mc2 = Some n2"
         "n1 \<noteq> b" "n2 \<noteq> b" "n1 \<noteq> n2"
         "mutation_date mc1 = Some d" "mutation_date mc2 = Some d"
      by blast
    have "sql_ne (old_bfs_number mc1) (new_bfs_number mc1)"
      "sql_ne (old_bfs_number mc2) (new_bfs_number mc2)"
      "new_bfs_number mc1 \<noteq> new_bfs_number mc2"
      using f by (auto simp: sql_ne_Some)
    with h m f(1,2) have "mutation_date mc1 \<noteq> mutation_date mc2" by blast
    with f(8,9) show False by simp
  qed
  from iff seq show ?thesis by blast
qed

text \<open>
  In \<open>split_changes\<close> municipality 1 is a true split origin by the two records of
  2010-01-01, and municipality 4, whose two changes lie two years apart, is not.
\<close>

theorem true_splits_iff_simultaneous_witness:
  "Some ''1'' \<in> set (true_splits split_changes) \<and>
   Some ''4'' \<notin> set (true_splits split_changes)"
proof
  have "\<exists>mc1 \<in> set split_changes. \<exists>mc2 \<in> set split_changes. \<exists>n1 n2 d.
        old_bfs_number mc1 = Some ''1'' \<and> old_bfs_number mc2 = Some ''1'' \<and>
        new_bfs_number mc1 = Some n1 \<and> new_bfs_number mc2 = Some n2 \<and>
        n1 \<noteq> ''1'' \<and> n2 \<noteq> ''1'' \<and> n1 \<noteq> n2 \<and>
        mutation_date mc1 = Some d \<and> mutation_date mc2 = Some d"
    by (simp add: split_changes_def change_def)
  with true_splits_iff_simultaneous [of "''1''" split_changes]
  show "Some ''1'' \<in> set (true_splits split_changes)" by blast
next
  have "\<forall>mc1 \<in> set split_changes. \<forall>mc2 \<in> set split_changes.
        old_bfs_number mc1 = Some ''4'' \<and> old_bfs_number mc2 = Some ''4'' \<and>
        sql_ne (old_bfs_number mc1) (new_bfs_number mc1) \<and>
        sql_ne (old_bfs_number mc2) (new_bfs_number mc2) \<and>
        new_bfs_number mc1 \<noteq> new_bfs_number mc2
        \<longrightarrow> mutation_date mc1 \<noteq> mutation_date mc2"
    by (simp add: split_changes_def change_def)
  with true_splits_iff_simultaneous [of "''4''" split_changes]
  show "Some ''4'' \<notin> set (true_splits split_changes)" by blast
qed

section \<open>Properties of the merger chain\<close>

lemma in_merger_chain_step:
  "x \<in> set (merger_chain_step mcs r) \<longleftrightarrow>
     (\<exists>mch \<in> set mcs.
        x = \<lparr>original_bfs = original_bfs r, original_name = original_name r,
             analysis_bfs = new_bfs_number mch, analysis_name = new_name mch,
             first_appearance = first_appearance r, depth = depth r + 1\<rparr> \<and>
        sql_eq (analysis_bfs r) (old_bfs_number mch) \<and>
        depth r < 10 \<and>
        sql_ne (old_bfs_number mch) (new_bfs_number mch) \<and>
        sql_ge (mutation_date mch) (Some (first_appearance r)) \<and>
        sql_not_in (analysis_bfs r) (true_splits mcs))"
  unfolding merger_chain_step_def by auto

lemma merger_chain_loop_seen:
  "set seen \<subseteq> set (merger_chain_loop mcs queue seen)"
proof (induction mcs queue seen rule: merger_chain_loop.induct)
  case (1 mcs seen)
  show ?case by simp
next
  case (2 mcs r queue seen)
  let ?new = "filter (\<lambda>x. x \<notin> set seen) (remdups (merger_chain_step mcs r))"
  have "set seen \<subseteq> set (seen @ ?new)" by simp
  also have "\<dots> \<subseteq> set (merger_chain_loop mcs (queue @ ?new) (seen @ ?new))"
    by (rule "2.IH"[OF refl])
  finally show ?case by (simp add: Let_def)
qed

lemma merger_chain_loop_invariant:
  assumes "\<forall>r \<in> set seen. P r"
    and "\<And>r x. P r \<Longrightarrow> x \<in> set (merger_chain_step mcs r) \<Longrightarrow> P x"
    and "set queue \<subseteq> set seen"
  shows "\<forall>r \<in> set (merger_chain_loop mcs queue seen). P r"
  using assms
proof (induction mcs queue seen rule: merger_chain_loop.induct)
  case (1 mcs seen)
  then show ?case by simp
next
  case (2 mcs r queue seen)
  let ?new = "filter (\<lambda>x. x \<notin> set seen) (remdups (merger_chain_step mcs r))"
  have "r \<in> set seen" using "2.prems"(3) by simp
  then have "P r" using "2.prems"(1) by blast
  then have "\<forall>x \<in> set ?new. P x" using "2.prems"(2) by simp
  with "2.prems"(1) have a: "\<forall>x \<in> set (seen @ ?new). P x" by auto
  have b: "set (queue @ ?new) \<subseteq> set (seen @ ?new)" using "2.prems"(3) by auto
  have "\<forall>x \<in> set (merger_chain_loop mcs (queue @ ?new) (seen @ ?new)). P x"
    by (rule "2.IH"[OF refl a "2.prems"(2) b])
  then show ?case by (simp add: Let_def)
qed

lemma merger_chain_loop_parent:
  assumes "set queue \<subseteq> set seen"
    and "x \<in> set (merger_chain_loop mcs queue seen)"
  shows "x \<in> set seen \<or>
         (\<exists>p \<in> set (merger_chain_loop mcs queue seen). x \<in> set (merger_chain_step mcs p))"
  using assms
proof (induction mcs queue seen rule: merger_chain_loop.induct)
  case (1 mcs seen)
  then show ?case by simp
next
  case (2 mcs r queue seen)
  let ?new = "filter (\<lambda>x. x \<notin> set seen) (remdups (merger_chain_step mcs r))"
  let ?res = "merger_chain_loop mcs (queue @ ?new) (seen @ ?new)"
  have res: "merger_chain_loop mcs (r # queue) seen = ?res" by (simp add: Let_def)
  have sub: "set (queue @ ?new) \<subseteq> set (seen @ ?new)" using "2.prems"(1) by auto
  have x: "x \<in> set ?res" using "2.prems"(2) res by simp
  from "2.IH"[OF refl sub x]
  consider "x \<in> set seen" | "x \<in> set ?new" | "\<exists>p \<in> set ?res. x \<in> set (merger_chain_step mcs p)"
    by auto
  then show ?case
  proof cases
    case 1 then show ?thesis by simp
  next
    case 2
    have "r \<in> set seen" using "2.prems"(1) by simp
    then have "r \<in> set ?res" using merger_chain_loop_seen[of "seen @ ?new" mcs "queue @ ?new"] by auto
    moreover have "x \<in> set (merger_chain_step mcs r)" using 2 by simp
    ultimately show ?thesis unfolding res by blast
  next
    case 3 then show ?thesis unfolding res by blast
  qed
qed

lemma merger_chain_loop_closed_aux:
  assumes "\<forall>p \<in> set seen - set queue. set (merger_chain_step mcs p) \<subseteq> set seen"
  shows "\<forall>p \<in> set (merger_chain_loop mcs queue seen).
           set (merger_chain_step mcs p) \<subseteq> set (merger_chain_loop mcs queue seen)"
  using assms
proof (induction mcs queue seen rule: merger_chain_loop.induct)
  case (1 mcs seen)
  then show ?case by simp
next
  case (2 mcs r queue seen)
  let ?new = "filter (\<lambda>x. x \<notin> set seen) (remdups (merger_chain_step mcs r))"
  have "\<forall>p \<in> set (seen @ ?new) - set (queue @ ?new).
          set (merger_chain_step mcs p) \<subseteq> set (seen @ ?new)"
    using "2.prems" by auto
  from "2.IH"[OF refl this] show ?case by (simp add: Let_def)
qed


lemma merger_chain_base_in:
  "vm \<in> set vms \<Longrightarrow> merger_chain_base vm \<in> set (merger_chain mcs vms)"
  using merger_chain_loop_seen[of "remdups (map merger_chain_base vms)" mcs
      "remdups (map merger_chain_base vms)"]
  by (auto simp: merger_chain_def Let_def)

lemma merger_chain_cases:
  assumes "x \<in> set (merger_chain mcs vms)"
  shows "(\<exists>vm \<in> set vms. x = merger_chain_base vm) \<or>
         (\<exists>p \<in> set (merger_chain mcs vms). x \<in> set (merger_chain_step mcs p))"
  using merger_chain_loop_parent[of "remdups (map merger_chain_base vms)"
      "remdups (map merger_chain_base vms)" x mcs] assms
  by (auto simp: merger_chain_def Let_def)

lemma merger_chain_closed:
  assumes "p \<in> set (merger_chain mcs vms)"
  shows "set (merger_chain_step mcs p) \<subseteq> set (merger_chain mcs vms)"
  using merger_chain_loop_closed_aux[of "remdups (map merger_chain_base vms)"
      "remdups (map merger_chain_base vms)" mcs] assms
  by (simp add: merger_chain_def Let_def)

lemma merger_chain_invariant:
  assumes "\<And>vm. vm \<in> set vms \<Longrightarrow> P (merger_chain_base vm)"
    and "\<And>r x. P r \<Longrightarrow> x \<in> set (merger_chain_step mcs r) \<Longrightarrow> P x"
    and "x \<in> set (merger_chain mcs vms)"
  shows "P x"
proof -
  have "\<forall>r \<in> set (remdups (map merger_chain_base vms)). P r"
    using assms(1) by auto
  from merger_chain_loop_invariant[where P = P, OF this assms(2) subset_refl]
  show ?thesis using assms(3) by (simp add: merger_chain_def Let_def)
qed

lemma merger_chain_depth_le:
  assumes "x \<in> set (merger_chain mcs vms)"
  shows "depth x \<le> 10"
proof (rule merger_chain_invariant[where P = "\<lambda>r. depth r \<le> 10", OF _ _ assms])
  show "depth (merger_chain_base vm) \<le> 10" for vm
    by (simp add: merger_chain_base_def)
  show "depth x \<le> 10" if "x \<in> set (merger_chain_step mcs r)" for r x
    using that by (auto simp: in_merger_chain_step)
qed

lemma merger_chain_original:
  assumes "x \<in> set (merger_chain mcs vms)"
  shows "original_bfs x \<in> bfs ` set vms"
proof (rule merger_chain_invariant[where P = "\<lambda>r. original_bfs r \<in> bfs ` set vms", OF _ _ assms])
  show "original_bfs (merger_chain_base vm) \<in> bfs ` set vms" if "vm \<in> set vms" for vm
    using that by (simp add: merger_chain_base_def)
  show "original_bfs x \<in> bfs ` set vms"
    if "original_bfs r \<in> bfs ` set vms" "x \<in> set (merger_chain_step mcs r)" for r x
    using that by (auto simp: in_merger_chain_step)
qed

lemma sql_max_Some:
  "xs \<noteq> [] \<Longrightarrow> sql_max xs = Some (Max (set xs))"
  by (cases xs) (simp_all add: Max.set_eq_fold[symmetric] del: set_simps)

lemma comprehension_map_filter:
  "concat (map (\<lambda>x. if P x then [f x] else []) xs) = map f (filter P xs)"
  by (induction xs) auto

lemma max_depth_rows_nonempty:
  assumes "b \<in> original_bfs ` set chain"
  shows "max_depth_rows chain b \<noteq> []"
proof -
  let ?grp = "filter (\<lambda>r. original_bfs r = b) chain"
  from assms have ne: "?grp \<noteq> []" by (auto simp: filter_empty_conv)
  then have ne': "map depth ?grp \<noteq> []" by simp
  then have m: "sql_max (map depth ?grp) = Some (Max (set (map depth ?grp)))"
    by (rule sql_max_Some)
  from ne' have "set (map depth ?grp) \<noteq> {}" by (simp only: set_empty not_False_eq_True)
  then have "Max (set (map depth ?grp)) \<in> set (map depth ?grp)"
    by (intro Max_in) simp_all
  then obtain r where "r \<in> set ?grp" "depth r = Max (set (map depth ?grp))" by auto
  then have "r \<in> set (max_depth_rows chain b)"
    unfolding max_depth_rows_def Let_def using m by simp
  then show ?thesis by auto
qed

lemma in_max_depth_rows:
  assumes "r \<in> set (max_depth_rows chain b)"
  shows "r \<in> set chain" "original_bfs r = b"
    "sql_max [depth mc2. mc2 \<leftarrow> chain, original_bfs mc2 = b] = Some (depth r)"
    "\<forall>x \<in> set chain. original_bfs x = b \<longrightarrow> depth x \<le> depth r"
proof -
  let ?grp = "filter (\<lambda>r. original_bfs r = b) chain"
  from assms have r: "r \<in> set ?grp" and d: "Some (depth r) = sql_max (map depth ?grp)"
    by (simp_all add: max_depth_rows_def Let_def)
  from r show "r \<in> set chain" "original_bfs r = b" by simp_all
  from d show "sql_max [depth mc2. mc2 \<leftarrow> chain, original_bfs mc2 = b] = Some (depth r)"
    by (simp add: comprehension_map_filter)
  from length_pos_if_in_set[OF r] have "map depth ?grp \<noteq> []"
    by (simp only: length_greater_0_conv map_is_Nil_conv not_False_eq_True)
  with d have dm: "depth r = Max (set (map depth ?grp))" by (simp add: sql_max_Some)
  show "\<forall>x \<in> set chain. original_bfs x = b \<longrightarrow> depth x \<le> depth r"
  proof (intro ballI impI)
    fix x assume "x \<in> set chain" "original_bfs x = b"
    then have "depth x \<in> set (map depth ?grp)" by auto
    then show "depth x \<le> depth r" unfolding dm by (intro Max_ge) auto
  qed
qed

lemma concat_map_singleton_cong:
  "(\<And>x. x \<in> set xs \<Longrightarrow> f x = [g x]) \<Longrightarrow> concat (map f xs) = map g xs"
  by (induction xs) auto

lemma v_stable_municipality_mapping_eq:
  "v_stable_municipality_mapping chain =
     map (\<lambda>b. mapping_columns (hd (max_depth_rows chain b))) (remdups (map original_bfs chain))"
  unfolding v_stable_municipality_mapping_def
proof (rule concat_map_singleton_cong)
  fix b assume "b \<in> set (remdups (map original_bfs chain))"
  then have "b \<in> original_bfs ` set chain" by simp
  then obtain r rs where rs: "max_depth_rows chain b = r # rs"
    using max_depth_rows_nonempty[of b chain] by (cases "max_depth_rows chain b") auto
  then have "r \<in> set (max_depth_rows chain b)" by simp
  from in_max_depth_rows(2,3)[OF this]
  have "Some (depth r) = sql_max [depth mc2. mc2 \<leftarrow> chain, original_bfs mc2 = original_bfs r]"
    by simp
  then show "(case max_depth_rows chain b of [] \<Rightarrow> []
        | r # x \<Rightarrow> if Some (depth r) = sql_max [depth mc2. mc2 \<leftarrow> chain, original_bfs mc2 = original_bfs r]
               then [mapping_columns r] else []) = [mapping_columns (hd (max_depth_rows chain b))]"
    using rs by simp
qed

lemma mapping_original_bfs:
  "map m_original_bfs (v_stable_municipality_mapping chain) = remdups (map original_bfs chain)"
proof -
  have "m_original_bfs (mapping_columns (hd (max_depth_rows chain b))) = b"
    if "b \<in> set (remdups (map original_bfs chain))" for b
  proof -
    from that have "max_depth_rows chain b \<noteq> []"
      using max_depth_rows_nonempty[of b chain] by simp
    then have "hd (max_depth_rows chain b) \<in> set (max_depth_rows chain b)" by simp
    from in_max_depth_rows(2)[OF this] show ?thesis by (simp add: mapping_columns_def)
  qed
  then show ?thesis
    unfolding v_stable_municipality_mapping_eq by (auto intro!: map_idI)
qed


lemma voting_municipalities_bfs:
  "bfs ` set (voting_municipalities vrs vs) =
     {geo_id vr | vr v. vr \<in> set vrs \<and> v \<in> set vs \<and> vr_voting_id vr = voting_id v \<and>
        geo_level vr = ''municipality''}"
proof -
  let ?joined = "[(vr, v). vr \<leftarrow> vrs, v \<leftarrow> vs,
                      vr_voting_id vr = voting_id v, geo_level vr = ''municipality'']"
  have j: "set ?joined = {(vr, v). vr \<in> set vrs \<and> v \<in> set vs \<and>
             vr_voting_id vr = voting_id v \<and> geo_level vr = ''municipality''}"
    by (auto split: if_splits)
  have "bfs ` set (voting_municipalities vrs vs) = (\<lambda>(vr, v). geo_id vr) ` set ?joined"
    unfolding voting_municipalities_def Let_def
    by (simp add: image_image comprehension_map_filter split_def del: set_concat)
  also have "\<dots> = {geo_id vr | vr v. vr \<in> set vrs \<and> v \<in> set vs \<and>
        vr_voting_id vr = voting_id v \<and> geo_level vr = ''municipality''}"
    unfolding j by auto
  finally show ?thesis .
qed

lemma merger_chain_original_bfs:
  "original_bfs ` set (merger_chain mcs vms) = bfs ` set vms"
proof
  show "original_bfs ` set (merger_chain mcs vms) \<subseteq> bfs ` set vms"
    using merger_chain_original by blast
  show "bfs ` set vms \<subseteq> original_bfs ` set (merger_chain mcs vms)"
  proof
    fix b assume "b \<in> bfs ` set vms"
    then obtain vm where vm: "vm \<in> set vms" "b = bfs vm" by auto
    from merger_chain_base_in[OF vm(1), of mcs]
    have "original_bfs (merger_chain_base vm) \<in> original_bfs ` set (merger_chain mcs vms)"
      by (rule imageI)
    then show "b \<in> original_bfs ` set (merger_chain mcs vms)"
      using vm(2) by (simp add: merger_chain_base_def)
  qed
qed

lemma count_distinct_key:
  "distinct (map f xs) \<Longrightarrow>
     length (filter (\<lambda>x. f x = a) xs) = (if a \<in> f ` set xs then 1 else 0)"
  by (induction xs) auto

lemma stable_mapping_keys:
  "map m_original_bfs (stable_mapping_of db) =
     remdups (map original_bfs
       (merger_chain (municipal_changes db)
          (voting_municipalities (voting_results db) (votings db))))"
  unfolding stable_mapping_of_def by (rule mapping_original_bfs)

lemma stable_mapping_key_set:
  "m_original_bfs ` set (stable_mapping_of db) =
     {geo_id vr | vr v. vr \<in> set (voting_results db) \<and> v \<in> set (votings db) \<and>
        vr_voting_id vr = voting_id v \<and> geo_level vr = ''municipality''}"
proof -
  have "m_original_bfs ` set (stable_mapping_of db) = set (map m_original_bfs (stable_mapping_of db))"
    by simp
  also have "\<dots> = bfs ` set (voting_municipalities (voting_results db) (votings db))"
    unfolding stable_mapping_keys by (simp add: merger_chain_original_bfs)
  finally show ?thesis by (simp only: voting_municipalities_bfs)
qed

section \<open>Totality of the mapping\<close>

text \<open>
  C3. The mapping view never has two rows with the same \<^verbatim>\<open>original_bfs\<close>, and it has
  exactly one row for every municipality id that appears in the voting data, that is,
  in a municipality-level row of \<^verbatim>\<open>voting_results\<close> whose \<^verbatim>\<open>voting_id\<close> is that of
  a row of \<^verbatim>\<open>votings\<close> (the join of \<^verbatim>\<open>voting_municipalities\<close>).
\<close>

theorem mapping_total_function:
  "length (filter (\<lambda>m. m_original_bfs m = g) (stable_mapping_of db)) \<le> 1 \<and>
   ((\<exists>vr \<in> set (voting_results db). \<exists>v \<in> set (votings db).
       geo_id vr = g \<and> geo_level vr = ''municipality'' \<and> vr_voting_id vr = voting_id v)
    \<longrightarrow> length (filter (\<lambda>m. m_original_bfs m = g) (stable_mapping_of db)) = 1)"
proof -
  have d: "distinct (map m_original_bfs (stable_mapping_of db))"
    unfolding stable_mapping_keys by simp
  note c = count_distinct_key[OF d, of g]
  have "g \<in> m_original_bfs ` set (stable_mapping_of db)"
    if "\<exists>vr \<in> set (voting_results db). \<exists>v \<in> set (votings db).
       geo_id vr = g \<and> geo_level vr = ''municipality'' \<and> vr_voting_id vr = voting_id v"
    unfolding stable_mapping_key_set using that by blast
  with c show ?thesis by auto
qed

text \<open>In the end-to-end example, municipality 1001 has exactly one row.\<close>

theorem mapping_total_function_witness:
  "length (filter (\<lambda>m. m_original_bfs m = ''1001'') (stable_mapping_of lineage_db)) = 1"
proof -
  have "\<exists>vr \<in> set (voting_results lineage_db). \<exists>v \<in> set (votings lineage_db).
       geo_id vr = ''1001'' \<and> geo_level vr = ''municipality'' \<and> vr_voting_id vr = voting_id v"
    by (simp add: lineage_db_def municipality_result_def vote_2005_def)
  with mapping_total_function [of "''1001''" lineage_db] show ?thesis by blast
qed

section \<open>Termination and the depth bound\<close>

lemma length_merger_chain_step: "length (merger_chain_step mcs r) \<le> length mcs"
proof -
  have "length (concat (map (\<lambda>x. if P x then [f x] else []) xs)) \<le> length xs"
    for P and f :: "municipal_change \<Rightarrow> chain_row" and xs
    by (induction xs) auto
  then show ?thesis unfolding merger_chain_step_def .
qed

lemma merger_chain_level_card:
  "card {r \<in> set (merger_chain mcs vms). depth r = d} \<le> length vms * length mcs ^ d"
proof (induction d)
  case 0
  have "{r \<in> set (merger_chain mcs vms). depth r = 0} \<subseteq> merger_chain_base ` set vms"
  proof
    fix r assume "r \<in> {r \<in> set (merger_chain mcs vms). depth r = 0}"
    then have r: "r \<in> set (merger_chain mcs vms)" "depth r = 0" by auto
    from merger_chain_cases[OF r(1)] r(2) show "r \<in> merger_chain_base ` set vms"
      by (auto simp: in_merger_chain_step)
  qed
  then have "card {r \<in> set (merger_chain mcs vms). depth r = 0} \<le> card (merger_chain_base ` set vms)"
    by (intro card_mono) auto
  also have "\<dots> \<le> card (set vms)" by (intro card_image_le) simp
  also have "\<dots> \<le> length vms" by (rule card_length)
  finally show ?case by simp
next
  case (Suc d)
  let ?L = "\<lambda>d. {r \<in> set (merger_chain mcs vms). depth r = d}"
  have sub: "?L (Suc d) \<subseteq> (\<Union>p \<in> ?L d. set (merger_chain_step mcs p))"
  proof
    fix r assume "r \<in> ?L (Suc d)"
    then have r: "r \<in> set (merger_chain mcs vms)" "depth r = Suc d" by auto
    from merger_chain_cases[OF r(1)] r(2) obtain p
      where "p \<in> set (merger_chain mcs vms)" "r \<in> set (merger_chain_step mcs p)"
      by (auto simp: merger_chain_base_def)
    moreover from this r(2) have "depth p = d" by (auto simp: in_merger_chain_step)
    ultimately show "r \<in> (\<Union>p \<in> ?L d. set (merger_chain_step mcs p))" by auto
  qed
  have "card (?L (Suc d)) \<le> card (\<Union>p \<in> ?L d. set (merger_chain_step mcs p))"
    using sub by (intro card_mono) auto
  also have "\<dots> \<le> (\<Sum>p \<in> ?L d. card (set (merger_chain_step mcs p)))"
    by (rule card_UN_le) simp
  also have "\<dots> \<le> (\<Sum>p \<in> ?L d. length mcs)"
    by (intro sum_mono order_trans[OF card_length] length_merger_chain_step)
  also have "\<dots> = card (?L d) * length mcs" by simp
  also have "\<dots> \<le> (length vms * length mcs ^ d) * length mcs"
    using Suc by (intro mult_right_mono) auto
  finally show ?case by (simp add: mult_ac)
qed

lemma merger_chain_card:
  "card (set (merger_chain mcs vms)) \<le> length vms * (\<Sum>d\<le>10. length mcs ^ d)"
proof -
  let ?L = "\<lambda>d. {r \<in> set (merger_chain mcs vms). depth r = d}"
  have "set (merger_chain mcs vms) \<subseteq> (\<Union>d \<in> {..10}. ?L d)"
    using merger_chain_depth_le by auto
  then have "card (set (merger_chain mcs vms)) \<le> card (\<Union>d \<in> {..10}. ?L d)"
    by (intro card_mono) auto
  also have "\<dots> \<le> (\<Sum>d \<in> {..10}. card (?L d))"
    by (rule card_UN_le) simp
  also have "\<dots> \<le> (\<Sum>d \<in> {..10}. length vms * length mcs ^ d)"
    by (intro sum_mono merger_chain_level_card)
  finally show ?thesis by (simp only: sum_distrib_left)
qed

lemma merger_chain_loop_distinct:
  "distinct seen \<Longrightarrow> distinct (merger_chain_loop mcs queue seen)"
proof (induction mcs queue seen rule: merger_chain_loop.induct)
  case (1 mcs seen)
  then show ?case by simp
next
  case (2 mcs r queue seen)
  let ?new = "filter (\<lambda>x. x \<notin> set seen) (remdups (merger_chain_step mcs r))"
  have "distinct (seen @ ?new)" using "2.prems" by auto
  from "2.IH"[OF refl this] show ?case by (simp add: Let_def)
qed

lemma merger_chain_length:
  "length (merger_chain mcs vms) \<le> length vms * (\<Sum>d\<le>10. length mcs ^ d)"
proof -
  have "distinct (merger_chain mcs vms)"
    unfolding merger_chain_def Let_def by (rule merger_chain_loop_distinct) simp
  then have "length (merger_chain mcs vms) = card (set (merger_chain mcs vms))"
    by (simp add: distinct_card)
  with merger_chain_card show ?thesis by simp
qed


lemma successor_chain_loop_invariant:
  assumes "\<forall>r \<in> set seen. P r"
    and "\<And>r x. P r \<Longrightarrow> x \<in> set (successor_chain_step mcs r) \<Longrightarrow> P x"
    and "set queue \<subseteq> set seen"
  shows "\<forall>r \<in> set (successor_chain_loop mcs queue seen). P r"
  using assms
proof (induction mcs queue seen rule: successor_chain_loop.induct)
  case (1 mcs seen)
  then show ?case by simp
next
  case (2 mcs r queue seen)
  let ?new = "filter (\<lambda>x. x \<notin> set seen) (remdups (successor_chain_step mcs r))"
  have "r \<in> set seen" using "2.prems"(3) by simp
  then have "P r" using "2.prems"(1) by blast
  then have "\<forall>x \<in> set ?new. P x" using "2.prems"(2) by simp
  with "2.prems"(1) have a: "\<forall>x \<in> set (seen @ ?new). P x" by auto
  have b: "set (queue @ ?new) \<subseteq> set (seen @ ?new)" using "2.prems"(3) by auto
  have "\<forall>x \<in> set (successor_chain_loop mcs (queue @ ?new) (seen @ ?new)). P x"
    by (rule "2.IH"[OF refl a "2.prems"(2) b])
  then show ?case by (simp add: Let_def)
qed

lemma successor_chain_depth_le:
  assumes "x \<in> set (successor_chain mcs vrs)"
  shows "merge_depth_so_far x \<le> 10"
proof -
  let ?P = "\<lambda>r. merge_depth_so_far r \<le> 10"
  let ?initial = "remdups [successor_chain_base vr. vr \<leftarrow> vrs, geo_level vr = ''municipality'']"
  have "\<forall>r \<in> set ?initial. ?P r"
    by (auto simp: successor_chain_base_def split: if_splits)
  moreover have "?P x" if "x \<in> set (successor_chain_step mcs r)" for r x
    using that unfolding successor_chain_step_def by auto
  ultimately have "\<forall>r \<in> set (successor_chain_loop mcs ?initial ?initial). ?P r"
    by (intro successor_chain_loop_invariant) auto
  with assms show ?thesis by (simp add: successor_chain_def Let_def)
qed

lemma Cons_filter_in: "filter P xs = r # rs \<Longrightarrow> r \<in> set xs"
proof -
  assume "filter P xs = r # rs"
  then have "r \<in> set (filter P xs)" by simp
  then show ?thesis by simp
qed

lemma total_mergers_le:
  assumes "m \<in> set (v_municipality_mapping chain)"
  shows "\<exists>r \<in> set chain. total_mergers m = merge_depth_so_far r"
proof -
  let ?F = "\<lambda>b. filter (\<lambda>r. Some (merge_depth_so_far r) =
        sql_max (map merge_depth_so_far (filter (\<lambda>r. s_original_bfs r = b) chain)))
       (filter (\<lambda>r. s_original_bfs r = b) chain)"
  from assms obtain b where mb: "m \<in> set (case ?F b of [] \<Rightarrow> []
             | r # _ \<Rightarrow>
                 if Some (merge_depth_so_far r) =
                    sql_max [merge_depth_so_far sc2. sc2 \<leftarrow> chain,
                               s_original_bfs sc2 = s_original_bfs r]
                 then [\<lparr>o_original_bfs = s_original_bfs r,
                        o_original_name = s_original_name r,
                        o_current_bfs = current_bfs r,
                        o_current_name = current_name r,
                        total_mergers = merge_depth_so_far r\<rparr>]
                 else [])"
    unfolding v_municipality_mapping_def Let_def by auto
  show ?thesis
  proof (cases "?F b")
    case Nil
    with mb show ?thesis by simp
  next
    case (Cons r rs)
    then have "r \<in> set (filter (\<lambda>r. s_original_bfs r = b) chain)" by (rule Cons_filter_in)
    then have r: "r \<in> set chain" by simp
    from mb Cons have "total_mergers m = merge_depth_so_far r"
      by (auto split: if_splits)
    with r show ?thesis by blast
  qed
qed

text \<open>
  C7. \<open>merger_chain_loop\<close> is a total function: its termination proof shows that the
  queue of the recursive query empties for every table of changes, cyclic or not. No
  row of \<^verbatim>\<open>merger_chain\<close> has a depth above 10, so no lineage takes more than ten
  steps, and no \<^verbatim>\<open>merge_depth\<close> of the mapping view exceeds 10. The table has at
  most \<open>1 + n + \<dots> + n\<^sup>1\<^sup>0\<close> rows for each seed, where \<open>n\<close> is the number of change
  records; each round of the queue handles one of these rows. The recursive query
  \<^verbatim>\<open>successor_chain\<close> of the older view is total in the same way, and its depths and
  \<^verbatim>\<open>total_mergers\<close> are at most 10 as well.
\<close>

theorem merge_depth_bounded:
  "(\<forall>r \<in> set (merger_chain mcs vms). depth r \<le> 10) \<and>
   (\<forall>m \<in> set (v_stable_municipality_mapping (merger_chain mcs vms)). merge_depth m \<le> 10) \<and>
   length (merger_chain mcs vms) \<le> length vms * (\<Sum>d\<le>10. length mcs ^ d) \<and>
   (\<forall>r \<in> set (successor_chain mcs vrs). merge_depth_so_far r \<le> 10) \<and>
   (\<forall>m \<in> set (v_municipality_mapping (successor_chain mcs vrs)). total_mergers m \<le> 10)"
proof (intro conjI)
  show a: "\<forall>r \<in> set (merger_chain mcs vms). depth r \<le> 10"
    using merger_chain_depth_le by blast
  show "\<forall>m \<in> set (v_stable_municipality_mapping (merger_chain mcs vms)). merge_depth m \<le> 10"
  proof
    fix m assume "m \<in> set (v_stable_municipality_mapping (merger_chain mcs vms))"
    then obtain b where b: "b \<in> original_bfs ` set (merger_chain mcs vms)"
      and m: "m = mapping_columns (hd (max_depth_rows (merger_chain mcs vms) b))"
      unfolding v_stable_municipality_mapping_eq by auto
    from max_depth_rows_nonempty[OF b]
    have "hd (max_depth_rows (merger_chain mcs vms) b) \<in> set (max_depth_rows (merger_chain mcs vms) b)"
      by simp
    from in_max_depth_rows(1)[OF this] a
    show "merge_depth m \<le> 10" unfolding m by (simp add: mapping_columns_def)
  qed
  show "length (merger_chain mcs vms) \<le> length vms * (\<Sum>d\<le>10. length mcs ^ d)"
    by (rule merger_chain_length)
  show "\<forall>r \<in> set (successor_chain mcs vrs). merge_depth_so_far r \<le> 10"
    using successor_chain_depth_le by blast
  show "\<forall>m \<in> set (v_municipality_mapping (successor_chain mcs vrs)). total_mergers m \<le> 10"
    using total_mergers_le successor_chain_depth_le by fastforce
qed

text \<open>
  On the cycle between 1 and 2 the chain of municipality 1 stops after ten steps, back
  at 1, with \<^verbatim>\<open>merge_depth\<close> 10.
\<close>

theorem merge_depth_bounded_witness:
  "mapping_columns
     \<lparr>original_bfs = ''1'', original_name = Some ''n1'', analysis_bfs = Some ''1'',
      analysis_name = Some ''n1'', first_appearance = ''20050605'', depth = 10\<rparr>
     \<in> set (stable_mapping_of cycle_db) \<and>
   merge_depth (mapping_columns
     \<lparr>original_bfs = ''1'', original_name = Some ''n1'', analysis_bfs = Some ''1'',
      analysis_name = Some ''n1'', first_appearance = ''20050605'', depth = 10\<rparr>) \<le> 10"
proof -
  let ?m = "mapping_columns
     \<lparr>original_bfs = ''1'', original_name = Some ''n1'', analysis_bfs = Some ''1'',
      analysis_name = Some ''n1'', first_appearance = ''20050605'', depth = 10\<rparr>"
  have m: "?m \<in> set (stable_mapping_of cycle_db)"
    by code_simp
  then have "?m \<in> set (v_stable_municipality_mapping
       (merger_chain (municipal_changes cycle_db)
          (voting_municipalities (voting_results cycle_db) (votings cycle_db))))"
    by (simp only: stable_mapping_of_def)
  with merge_depth_bounded [of "municipal_changes cycle_db"
      "voting_municipalities (voting_results cycle_db) (votings cycle_db)"
      "voting_results cycle_db"]
  have "merge_depth ?m \<le> 10" by blast
  with m show ?thesis by blast
qed

section \<open>Split freeze\<close>

lemma sql_not_in_iff: "a \<in> set xs \<Longrightarrow> \<not> sql_not_in a xs"
  by (auto simp: sql_not_in_def)

lemma sql_not_in_notin: "sql_not_in a xs \<Longrightarrow> a \<notin> set xs"
  by (auto simp: sql_not_in_def)

lemma merger_chain_step_split_origin:
  "analysis_bfs p \<in> set (true_splits mcs) \<Longrightarrow> merger_chain_step mcs p = []"
proof -
  assume "analysis_bfs p \<in> set (true_splits mcs)"
  then have "\<not> sql_not_in (analysis_bfs p) (true_splits mcs)" by (rule sql_not_in_iff)
  then show ?thesis
    unfolding merger_chain_step_def by simp
qed

lemma merger_chain_split_seed:
  assumes "x \<in> set (merger_chain mcs vms)" "Some (original_bfs x) \<in> set (true_splits mcs)"
  shows "depth x = 0 \<and> analysis_bfs x = Some (original_bfs x)"
proof -
  let ?P = "\<lambda>r. Some (original_bfs r) \<in> set (true_splits mcs) \<longrightarrow>
                depth r = 0 \<and> analysis_bfs r = Some (original_bfs r)"
  have "?P x"
  proof (rule merger_chain_invariant[where P = ?P, OF _ _ assms(1)])
    show "?P (merger_chain_base vm)" for vm by (simp add: merger_chain_base_def)
    show "?P y" if r: "?P r" and y: "y \<in> set (merger_chain_step mcs r)" for r y
    proof
      assume s: "Some (original_bfs y) \<in> set (true_splits mcs)"
      from y have o: "original_bfs y = original_bfs r" by (auto simp: in_merger_chain_step)
      with s r have "analysis_bfs r \<in> set (true_splits mcs)" by simp
      then have "merger_chain_step mcs r = []" by (rule merger_chain_step_split_origin)
      with y show "depth y = 0 \<and> analysis_bfs y = Some (original_bfs y)" by simp
    qed
  qed
  with assms(2) show ?thesis by blast
qed

lemma in_stable_mapping:
  assumes "m \<in> set (v_stable_municipality_mapping chain)"
  obtains r where "r \<in> set (max_depth_rows chain (m_original_bfs m))" "m = mapping_columns r"
proof -
  from assms obtain b where b: "b \<in> original_bfs ` set chain"
    and m: "m = mapping_columns (hd (max_depth_rows chain b))"
    unfolding v_stable_municipality_mapping_eq by auto
  from max_depth_rows_nonempty[OF b]
  have h: "hd (max_depth_rows chain b) \<in> set (max_depth_rows chain b)" by simp
  from in_max_depth_rows(2)[OF h] m have "m_original_bfs m = b"
    by (simp add: mapping_columns_def)
  with h have "hd (max_depth_rows chain b) \<in> set (max_depth_rows chain (m_original_bfs m))"
    by simp
  then show thesis using m by (rule that)
qed

text \<open>
  C5. Every row of \<^verbatim>\<open>merger_chain\<close> beyond depth 0 extends a row of the chain, of
  the same seed and one step less deep, along a change record, and the node extended is
  not a true split origin. A row that stands at a true split origin has no extension
  at all. So a seed that is itself a true split origin keeps its own id as analysis
  id, at merge depth 0, in the mapping view.
\<close>

theorem split_origin_is_terminal:
  "(\<forall>x \<in> set (merger_chain mcs vms). 0 < depth x \<longrightarrow>
      (\<exists>p \<in> set (merger_chain mcs vms). \<exists>mch \<in> set mcs.
          original_bfs p = original_bfs x \<and> depth x = depth p + 1 \<and>
          sql_eq (analysis_bfs p) (old_bfs_number mch) \<and>
          analysis_bfs x = new_bfs_number mch \<and>
          analysis_bfs p \<notin> set (true_splits mcs)))
   \<and> (\<forall>p :: chain_row.
        analysis_bfs p \<in> set (true_splits mcs) \<longrightarrow> merger_chain_step mcs p = [])
   \<and> (\<forall>m \<in> set (v_stable_municipality_mapping (merger_chain mcs vms)).
        Some (m_original_bfs m) \<in> set (true_splits mcs) \<longrightarrow>
        m_analysis_bfs m = Some (m_original_bfs m) \<and> merge_depth m = 0)"
proof (intro conjI ballI allI impI)
  fix x assume x: "x \<in> set (merger_chain mcs vms)" and d: "0 < depth x"
  from merger_chain_cases[OF x] d obtain p
    where p: "p \<in> set (merger_chain mcs vms)" and s: "x \<in> set (merger_chain_step mcs p)"
    by (auto simp: merger_chain_base_def)
  from s obtain mch where "mch \<in> set mcs" "original_bfs p = original_bfs x"
    "depth x = depth p + 1" "sql_eq (analysis_bfs p) (old_bfs_number mch)"
    "analysis_bfs x = new_bfs_number mch" "sql_not_in (analysis_bfs p) (true_splits mcs)"
    by (auto simp: in_merger_chain_step)
  with p sql_not_in_notin
  show "\<exists>p \<in> set (merger_chain mcs vms). \<exists>mch \<in> set mcs.
          original_bfs p = original_bfs x \<and> depth x = depth p + 1 \<and>
          sql_eq (analysis_bfs p) (old_bfs_number mch) \<and>
          analysis_bfs x = new_bfs_number mch \<and>
          analysis_bfs p \<notin> set (true_splits mcs)"
    by blast
next
  fix p :: chain_row assume "analysis_bfs p \<in> set (true_splits mcs)"
  then show "merger_chain_step mcs p = []" by (rule merger_chain_step_split_origin)
next
  fix m assume m: "m \<in> set (v_stable_municipality_mapping (merger_chain mcs vms))"
    and s: "Some (m_original_bfs m) \<in> set (true_splits mcs)"
  from m obtain r where r: "r \<in> set (max_depth_rows (merger_chain mcs vms) (m_original_bfs m))"
    and mr: "m = mapping_columns r"
    by (rule in_stable_mapping)
  from in_max_depth_rows(1,2)[OF r] s merger_chain_split_seed[of r mcs vms]
  have "depth r = 0 \<and> analysis_bfs r = Some (original_bfs r)" by simp
  then show "m_analysis_bfs m = Some (m_original_bfs m)" "merge_depth m = 0"
    unfolding mr by (simp_all add: mapping_columns_def)
qed

text \<open>
  In \<open>split_db\<close> municipality 1 is a true split origin and maps to itself.
\<close>

theorem split_origin_is_terminal_witness:
  "Some ''1'' \<in> set (true_splits (municipal_changes split_db)) \<and>
   \<lparr>m_original_bfs = ''1'', m_original_name = Some ''n1'', m_analysis_bfs = Some ''1'',
    m_analysis_name = Some ''n1'', m_first_appearance = ''20050605'', merge_depth = 0\<rparr>
     \<in> set (stable_mapping_of split_db) \<and>
   m_analysis_bfs
     \<lparr>m_original_bfs = ''1'', m_original_name = Some ''n1'', m_analysis_bfs = Some ''1'',
      m_analysis_name = Some ''n1'', m_first_appearance = ''20050605'', merge_depth = 0\<rparr>
     = Some ''1''"
proof -
  let ?mcs = "municipal_changes split_db"
  let ?vms = "voting_municipalities (voting_results split_db) (votings split_db)"
  let ?m = "\<lparr>m_original_bfs = ''1'', m_original_name = Some ''n1'',
     m_analysis_bfs = Some ''1'', m_analysis_name = Some ''n1'',
     m_first_appearance = ''20050605'', merge_depth = 0\<rparr>"
  have s: "Some ''1'' \<in> set (true_splits ?mcs)" by code_simp
  have m: "?m \<in> set (stable_mapping_of split_db)" by code_simp
  then have m': "?m \<in> set (v_stable_municipality_mapping (merger_chain ?mcs ?vms))"
    by (simp only: stable_mapping_of_def)
  from split_origin_is_terminal [of ?mcs ?vms]
  have "\<forall>m \<in> set (v_stable_municipality_mapping (merger_chain ?mcs ?vms)).
        Some (m_original_bfs m) \<in> set (true_splits ?mcs) \<longrightarrow>
        m_analysis_bfs m = Some (m_original_bfs m) \<and> merge_depth m = 0"
    by blast
  from this[rule_format, OF m'] s have "m_analysis_bfs ?m = Some ''1''" by simp
  with s m show ?thesis by blast
qed

section \<open>Rows, joins and groups of the views\<close>



lemma key_filter_one:
  "distinct ks \<Longrightarrow> b \<in> set ks \<Longrightarrow> (\<And>k. k \<in> set ks \<Longrightarrow> f (g k) = k) \<Longrightarrow>
     filter (\<lambda>m. f m = b) (map g ks) = [g b]"
proof (induction ks)
  case Nil
  then show ?case by simp
next
  case (Cons k ks)
  show ?case
  proof (cases "k = b")
    case True
    with Cons.prems have "filter (\<lambda>m. f m = b) (map g ks) = []"
      by (auto simp: filter_empty_conv)
    with True Cons.prems show ?thesis by simp
  next
    case False
    with Cons show ?thesis by auto
  qed
qed

lemma stable_mapping_row_of:
  assumes "b \<in> original_bfs ` set chain"
  shows "filter (\<lambda>m. m_original_bfs m = b) (v_stable_municipality_mapping chain) =
           [mapping_columns (hd (max_depth_rows chain b))]"
    and "hd (max_depth_rows chain b) \<in> set (max_depth_rows chain b)"
proof -
  show h: "hd (max_depth_rows chain b) \<in> set (max_depth_rows chain b)"
    using max_depth_rows_nonempty[OF assms] by simp
  have "m_original_bfs (mapping_columns (hd (max_depth_rows chain k))) = k"
    if "k \<in> set (remdups (map original_bfs chain))" for k
  proof -
    from that have "max_depth_rows chain k \<noteq> []"
      using max_depth_rows_nonempty[of k chain] by simp
    then have "hd (max_depth_rows chain k) \<in> set (max_depth_rows chain k)" by simp
    from in_max_depth_rows(2)[OF this] show ?thesis by (simp add: mapping_columns_def)
  qed
  then show "filter (\<lambda>m. m_original_bfs m = b) (v_stable_municipality_mapping chain) =
           [mapping_columns (hd (max_depth_rows chain b))]"
    unfolding v_stable_municipality_mapping_eq
    using assms by (intro key_filter_one) simp_all
qed

section \<open>Reaching the depth bound\<close>




section \<open>Conflicting forward edges\<close>

text \<open>
  C6, as the claim states it, fails: municipality 4 has two qualifying forward edges
  that are no simultaneous split; both ends, 5 and 6, are rows of maximal depth, and the
  mapping view keeps municipality 4, resolved to one of them, with its votes in the
  analysis view under that id.
\<close>

theorem conflicting_edges_counterexample:
  "true_splits (municipal_changes conflict_db) = [] \<and>
   map analysis_bfs
     (max_depth_rows
        (merger_chain (municipal_changes conflict_db)
           (voting_municipalities (voting_results conflict_db) (votings conflict_db)))
        ''4'') = [Some ''5'', Some ''6''] \<and>
   map m_original_bfs (stable_mapping_of conflict_db) = [''4''] \<and>
   map m_analysis_bfs (stable_mapping_of conflict_db) \<in> {[Some ''5''], [Some ''6'']} \<and>
   map municipality_id (analysis_results_of conflict_db) \<in> {[Some ''5''], [Some ''6'']} \<and>
   map a_ja_stimmen_absolut (analysis_results_of conflict_db) = [Some 10]"
  by code_simp

text \<open>
  C6, amended. Whatever the edges are, every seed has exactly one row in the mapping
  view, and it is made of a row of \<^verbatim>\<open>merger_chain\<close> of that seed of maximal depth:
  of conflicting branches one of the deepest is taken, and nothing is reported or left
  out.
\<close>

theorem conflicting_edges_resolved_to_a_deepest_branch:
  assumes "b \<in> bfs ` set vms"
  shows "\<exists>r \<in> set (merger_chain mcs vms).
           original_bfs r = b \<and>
           (\<forall>x \<in> set (merger_chain mcs vms). original_bfs x = b \<longrightarrow> depth x \<le> depth r) \<and>
           filter (\<lambda>m. m_original_bfs m = b)
             (v_stable_municipality_mapping (merger_chain mcs vms)) = [mapping_columns r]"
proof -
  let ?chain = "merger_chain mcs vms"
  from assms have b: "b \<in> original_bfs ` set ?chain"
    by (simp add: merger_chain_original_bfs)
  let ?r = "hd (max_depth_rows ?chain b)"
  note r = stable_mapping_row_of[OF b]
  from in_max_depth_rows(1,2,4)[OF r(2)] r(1) show ?thesis by blast
qed

theorem conflicting_edges_resolved_to_a_deepest_branch_witness:
  "''4'' \<in> bfs ` set (voting_municipalities (voting_results conflict_db) (votings conflict_db)) \<and>
   (\<exists>r \<in> set (merger_chain (municipal_changes conflict_db)
               (voting_municipalities (voting_results conflict_db) (votings conflict_db))).
      original_bfs r = ''4'' \<and>
      filter (\<lambda>m. m_original_bfs m = ''4'')
        (v_stable_municipality_mapping
           (merger_chain (municipal_changes conflict_db)
              (voting_municipalities (voting_results conflict_db) (votings conflict_db))))
        = [mapping_columns r])"
proof -
  have b: "''4'' \<in> bfs ` set (voting_municipalities (voting_results conflict_db)
              (votings conflict_db))"
    by code_simp
  from conflicting_edges_resolved_to_a_deepest_branch [OF b, of "municipal_changes conflict_db"]
  show ?thesis using b by blast
qed

section \<open>Sums over groups\<close>

lemma sql_sum_Nil [simp]: "sql_sum [] = None"
  by (simp add: sql_sum_def)

lemma somes_Cons:
  "[y. Some y \<leftarrow> x # xs] = (case x of None \<Rightarrow> [] | Some v \<Rightarrow> [v]) @ [y. Some y \<leftarrow> xs]"
  by (cases x) simp_all

lemma somes_sums:
  "length [y. Some y \<leftarrow> xs] = (\<Sum>x\<leftarrow>xs. not_null x) \<and>
   sum_list [y. Some y \<leftarrow> xs] = (\<Sum>x\<leftarrow>xs. null_as_zero x)"
proof (induction xs)
  case Nil
  show ?case by simp
next
  case (Cons x xs)
  then show ?case
    by (cases x) (simp_all add: not_null_def null_as_zero_def)
qed

lemma sql_sum_alt:
  "sql_sum xs =
     (if (\<Sum>x\<leftarrow>xs. not_null x) = 0 then None else Some (\<Sum>x\<leftarrow>xs. null_as_zero x))"
proof -
  let ?ys = "[y. Some y \<leftarrow> xs]"
  have "(case ys of [] \<Rightarrow> None | a # l \<Rightarrow> Some (sum_list (a # l))) =
        (if length ys = 0 then None else Some (sum_list ys))" for ys :: "int list"
    by (cases ys) simp_all
  then have "sql_sum xs = (if length ?ys = 0 then None else Some (sum_list ?ys))"
    unfolding sql_sum_def .
  then show ?thesis by (simp only: somes_sums)
qed

lemma all_null_zero:
  "(\<Sum>x\<leftarrow>xs. not_null x) = 0 \<Longrightarrow> (\<Sum>x\<leftarrow>xs. null_as_zero x) = 0"
proof (induction xs)
  case Nil
  show ?case by simp
next
  case (Cons x xs)
  then show ?case by (cases x) (simp_all add: not_null_def null_as_zero_def)
qed

lemma sql_sum_eqI:
  assumes "(\<Sum>x\<leftarrow>xs. not_null x) = (\<Sum>x\<leftarrow>ys. not_null x)"
    and "(\<Sum>x\<leftarrow>xs. null_as_zero x) = (\<Sum>x\<leftarrow>ys. null_as_zero x)"
  shows "sql_sum xs = sql_sum ys"
  using assms by (simp add: sql_sum_alt)

lemma null_as_zero_sql_sum: "null_as_zero (sql_sum xs) = (\<Sum>x\<leftarrow>xs. null_as_zero x)"
proof (cases "(\<Sum>x\<leftarrow>xs. not_null x) = 0")
  case True
  then have "sql_sum xs = None" by (simp add: sql_sum_alt)
  then have "null_as_zero (sql_sum xs) = 0" by (simp add: null_as_zero_def)
  with all_null_zero[OF True] show ?thesis by simp
next
  case False
  then have "sql_sum xs = Some (\<Sum>x\<leftarrow>xs. null_as_zero x)" by (simp add: sql_sum_alt)
  then show ?thesis by (simp add: null_as_zero_def)
qed

lemma not_null_sql_sum:
  "not_null (sql_sum xs) = (if (\<Sum>x\<leftarrow>xs. not_null x) = 0 then 0 else 1)"
  by (simp add: sql_sum_alt not_null_def)

lemma sql_sum_of_sums: "sql_sum (map sql_sum gs) = sql_sum (concat gs)"
proof -
  have t: "(\<Sum>g\<leftarrow>gs. null_as_zero (sql_sum g)) = (\<Sum>x\<leftarrow>concat gs. null_as_zero x)"
    by (induction gs) (simp_all add: null_as_zero_sql_sum)
  have n: "((\<Sum>g\<leftarrow>gs. not_null (sql_sum g)) = 0) = ((\<Sum>x\<leftarrow>concat gs. not_null x) = 0)"
    by (induction gs) (simp_all add: not_null_sql_sum)
  show ?thesis
    unfolding sql_sum_alt[of "map sql_sum gs"] sql_sum_alt[of "concat gs"]
    using t n by (simp add: comp_def)
qed

lemma sum_list_filter_split:
  fixes g :: "'a \<Rightarrow> 'b::comm_monoid_add"
  assumes "\<And>x. x \<in> set xs \<Longrightarrow> \<not> (P x \<and> Q x)"
  shows "(\<Sum>x\<leftarrow>filter (\<lambda>x. P x \<or> Q x) xs. g x) =
         (\<Sum>x\<leftarrow>filter P xs. g x) + (\<Sum>x\<leftarrow>filter Q xs. g x)"
  using assms by (induction xs) (auto simp: add_ac)

lemma sum_list_groups:
  fixes g :: "'a \<Rightarrow> 'b::comm_monoid_add"
  assumes "distinct ks"
  shows "(\<Sum>k\<leftarrow>ks. \<Sum>j\<leftarrow>filter (\<lambda>j. key j = k) js. g j) =
         (\<Sum>j\<leftarrow>filter (\<lambda>j. key j \<in> set ks) js. g j)"
  using assms
proof (induction ks)
  case Nil
  show ?case by simp
next
  case (Cons k ks)
  have "(\<Sum>j\<leftarrow>filter (\<lambda>j. key j \<in> set (k # ks)) js. g j) =
        (\<Sum>j\<leftarrow>filter (\<lambda>j. key j = k \<or> key j \<in> set ks) js. g j)"
    by simp
  also have "\<dots> = (\<Sum>j\<leftarrow>filter (\<lambda>j. key j = k) js. g j) +
                    (\<Sum>j\<leftarrow>filter (\<lambda>j. key j \<in> set ks) js. g j)"
    using Cons.prems by (intro sum_list_filter_split) auto
  finally show ?case using Cons by simp
qed

lemma concat_select_unique:
  assumes "distinct (map k xs)" "x0 \<in> set xs"
  shows "concat (map (\<lambda>x. if k x = k x0 then F x else []) xs) = F x0"
  using assms
proof (induction xs)
  case Nil
  then show ?case by simp
next
  case (Cons x xs)
  show ?case
  proof (cases "x = x0")
    case True
    with Cons.prems have "\<forall>y \<in> set xs. k y \<noteq> k x0" by (auto simp: image_iff)
    then have "concat (map (\<lambda>x. if k x = k x0 then F x else []) xs) = []"
      by (induction xs) auto
    with True show ?thesis by simp
  next
    case False
    with Cons.prems have "x0 \<in> set xs" "k x \<noteq> k x0" by (auto simp: image_iff)
    with Cons show ?thesis by simp
  qed
qed

lemma concat_filter_cong:
  "(\<And>x. x \<in> set xs \<Longrightarrow> F x = (if T x then [x] else [])) \<Longrightarrow>
     concat (map F xs) = filter T xs"
  by (induction xs) auto


lemma filter_concat_map:
  "filter P (concat (map F xs)) = concat (map (\<lambda>x. filter P (F x)) xs)"
  by (simp add: filter_concat comp_def)

lemma concat_map_Nil: "concat (map (\<lambda>x. []) xs) = []"
  by (induction xs) simp_all

lemma join_results_of_proposal:
  assumes dp: "distinct (map proposal_id ps)" and dv: "distinct (map voting_id vs)"
    and dm: "distinct (map m_original_bfs mp)"
    and p0: "p0 \<in> set ps" and v0: "v0 \<in> set vs" "voting_id v0 = p_voting_id p0"
    and cover: "\<And>vr. vr \<in> set vrs \<Longrightarrow> vr_proposal_id vr = proposal_id p0 \<Longrightarrow>
                  geo_level vr = ''municipality'' \<Longrightarrow> geo_id vr \<in> m_original_bfs ` set mp"
  shows "map (\<lambda>j. fst (snd (snd j)))
           (filter (\<lambda>j. proposal_id (fst (snd j)) = proposal_id p0)
              (analysis_join vs ps vrs mp)) =
         filter (\<lambda>vr. vr_proposal_id vr = proposal_id p0 \<and> geo_level vr = ''municipality'') vrs"
proof -
  define J where "J v p =
     [(v, p, vr, m). vr \<leftarrow> vrs, proposal_id p = vr_proposal_id vr,
        m \<leftarrow> mp, geo_id vr = m_original_bfs m, geo_level vr = ''municipality'']"
    for v :: voting and p :: proposal
  let ?Q = "\<lambda>j :: voting \<times> proposal \<times> voting_result \<times> mapping_row.
              proposal_id (fst (snd j)) = proposal_id p0"
  have join: "analysis_join vs ps vrs mp =
      concat (map (\<lambda>v. concat (map (\<lambda>p. if voting_id v = p_voting_id p then J v p else []) ps)) vs)"
    unfolding analysis_join_def J_def ..
  have Jp: "fst (snd j) = p" if "j \<in> set (J v p)" for j v p
    using that by (auto simp: J_def split: if_splits)
  have A: "filter ?Q (J v p) = (if proposal_id p = proposal_id p0 then J v p else [])" for v p
  proof (cases "proposal_id p = proposal_id p0")
    case True
    then have "\<forall>j \<in> set (J v p). ?Q j" using Jp by auto
    then have "filter ?Q (J v p) = J v p" by (simp only: filter_True)
    with True show ?thesis by simp
  next
    case False
    then have "\<forall>j \<in> set (J v p). \<not> ?Q j" using Jp by auto
    then have "filter ?Q (J v p) = []" by (simp only: filter_False)
    with False show ?thesis by simp
  qed
  have inner: "concat (map (\<lambda>p. filter ?Q (if voting_id v = p_voting_id p then J v p else [])) ps)
      = (if voting_id v = voting_id v0 then J v p0 else [])" for v
  proof -
    have "(\<lambda>p. filter ?Q (if voting_id v = p_voting_id p then J v p else [])) =
          (\<lambda>p. if proposal_id p = proposal_id p0
                then (if voting_id v = p_voting_id p then J v p else []) else [])"
      by (rule ext) (simp add: A)
    then show ?thesis
      using concat_select_unique[OF dp p0,
          where F = "\<lambda>p. if voting_id v = p_voting_id p then J v p else []"] v0(2)
      by simp
  qed
  have "filter ?Q (analysis_join vs ps vrs mp) =
        concat (map (\<lambda>v. if voting_id v = voting_id v0 then J v p0 else []) vs)"
    unfolding join filter_concat_map by (simp only: inner)
  also have "\<dots> = J v0 p0"
    by (rule concat_select_unique[OF dv v0(1)])
  finally have F: "filter ?Q (analysis_join vs ps vrs mp) = J v0 p0" .
  have E: "map (\<lambda>j. fst (snd (snd j))) (J v0 p0) =
        filter (\<lambda>vr. vr_proposal_id vr = proposal_id p0 \<and> geo_level vr = ''municipality'') vrs"
  proof -
    have "map (\<lambda>j. fst (snd (snd j))) (J v0 p0) =
        concat (map (\<lambda>vr. map (\<lambda>j. fst (snd (snd j)))
          (if proposal_id p0 = vr_proposal_id vr
           then concat (map (\<lambda>m. if geo_id vr = m_original_bfs m
                  then (if geo_level vr = ''municipality'' then [(v0, p0, vr, m)] else [])
                  else []) mp)
           else [])) vrs)"
      by (simp add: J_def map_concat comp_def)
    also have "\<dots> = filter (\<lambda>vr. vr_proposal_id vr = proposal_id p0 \<and>
                    geo_level vr = ''municipality'') vrs"
    proof (rule concat_filter_cong)
      fix vr assume vr: "vr \<in> set vrs"
      show "map (\<lambda>j. fst (snd (snd j)))
          (if proposal_id p0 = vr_proposal_id vr
           then concat (map (\<lambda>m. if geo_id vr = m_original_bfs m
                  then (if geo_level vr = ''municipality'' then [(v0, p0, vr, m)] else [])
                  else []) mp)
           else []) =
          (if vr_proposal_id vr = proposal_id p0 \<and> geo_level vr = ''municipality''
           then [vr] else [])"
      proof (cases "vr_proposal_id vr = proposal_id p0 \<and> geo_level vr = ''municipality''")
        case True
        with cover[OF vr] obtain m0 where m0: "m0 \<in> set mp" "geo_id vr = m_original_bfs m0"
          by auto
        have c1: "concat (map (\<lambda>m. if m_original_bfs m = m_original_bfs m0
                  then [(v0, p0, vr, m)] else []) mp) = [(v0, p0, vr, m0)]"
          by (rule concat_select_unique[OF dm m0(1)])
        have eq: "(\<lambda>m. if geo_id vr = m_original_bfs m
                  then (if geo_level vr = ''municipality'' then [(v0, p0, vr, m)] else [])
                  else []) = (\<lambda>m. if m_original_bfs m = m_original_bfs m0
                  then [(v0, p0, vr, m)] else [])"
          using True m0(2) by (intro ext) auto
        show ?thesis unfolding eq c1 using True by simp
      next
        case False
        then consider "vr_proposal_id vr \<noteq> proposal_id p0"
          | "vr_proposal_id vr = proposal_id p0" "geo_level vr \<noteq> ''municipality''" by blast
        then show ?thesis
        proof cases
          case 1
          then show ?thesis by auto
        next
          case 2
          then have eq: "(\<lambda>m. if geo_id vr = m_original_bfs m
                  then (if geo_level vr = ''municipality'' then [(v0, p0, vr, m)] else [])
                  else []) = (\<lambda>m. [])"
            by (intro ext) simp
          show ?thesis unfolding eq concat_map_Nil using 2 by simp
        qed
      qed
    qed
    finally show ?thesis .
  qed
  from F E show ?thesis by simp
qed


lemma sum_list_concat_map:
  fixes g :: "'a \<Rightarrow> 'b::comm_monoid_add"
  shows "(\<Sum>x\<leftarrow>concat (map F ks). g x) = (\<Sum>k\<leftarrow>ks. \<Sum>x\<leftarrow>F k. g x)"
  by (induction ks) simp_all

lemma proposal_of_analysis_row:
  "a_proposal_id (analysis_row k grp) = fst (snd (snd k))"
  by (simp add: analysis_row_def split: prod.split)

lemma proposal_of_group_key:
  "fst (snd (snd (analysis_group_key j))) = proposal_id (fst (snd j))"
  by (cases j) (simp add: analysis_group_key_def)

lemma v_voting_results_analysis_eq:
  "v_voting_results_analysis vs ps vrs mp =
     map (\<lambda>k. analysis_row k
            (map (\<lambda>j. fst (snd (snd j)))
               (filter (\<lambda>j. analysis_group_key j = k) (analysis_join vs ps vrs mp))))
       (remdups (map analysis_group_key (analysis_join vs ps vrs mp)))"
  unfolding v_voting_results_analysis_def Let_def
  by (simp add: comprehension_map_filter)

lemma view_sum_of_proposal:
  assumes dp: "distinct (map proposal_id ps)" and dv: "distinct (map voting_id vs)"
    and dm: "distinct (map m_original_bfs mp)"
    and p0: "p0 \<in> set ps" and v0: "v0 \<in> set vs" "voting_id v0 = p_voting_id p0"
    and cover: "\<And>vr. vr \<in> set vrs \<Longrightarrow> vr_proposal_id vr = proposal_id p0 \<Longrightarrow>
                  geo_level vr = ''municipality'' \<Longrightarrow> geo_id vr \<in> m_original_bfs ` set mp"
    and af: "\<And>k grp. af (analysis_row k grp) = sql_sum (map f grp)"
  shows "sql_sum [af row. row \<leftarrow> v_voting_results_analysis vs ps vrs mp,
                  a_proposal_id row = proposal_id p0] =
         sql_sum [f vr. vr \<leftarrow> vrs, vr_proposal_id vr = proposal_id p0 \<and>
                  geo_level vr = ''municipality'']"
proof -
  let ?J = "analysis_join vs ps vrs mp"
  let ?vr = "\<lambda>j :: voting \<times> proposal \<times> voting_result \<times> mapping_row. fst (snd (snd j))"
  let ?K = "filter (\<lambda>k. fst (snd (snd k)) = proposal_id p0)
              (remdups (map analysis_group_key ?J))"
  let ?T = "filter (\<lambda>vr. vr_proposal_id vr = proposal_id p0 \<and>
              geo_level vr = ''municipality'') vrs"
  have lhs: "[af row. row \<leftarrow> v_voting_results_analysis vs ps vrs mp,
                  a_proposal_id row = proposal_id p0] =
        map sql_sum (map (\<lambda>k. map (\<lambda>j. f (?vr j))
                (filter (\<lambda>j. analysis_group_key j = k) ?J)) ?K)"
    unfolding comprehension_map_filter v_voting_results_analysis_eq
    by (simp add: filter_map comp_def proposal_of_analysis_row af)
  have sums: "(\<Sum>x\<leftarrow>concat (map (\<lambda>k. map (\<lambda>j. f (?vr j))
                (filter (\<lambda>j. analysis_group_key j = k) ?J)) ?K). G x) =
           (\<Sum>vr\<leftarrow>?T. G (f vr))" for G :: "int option \<Rightarrow> 'g::comm_monoid_add"
  proof -
    have "(\<Sum>x\<leftarrow>concat (map (\<lambda>k. map (\<lambda>j. f (?vr j))
                (filter (\<lambda>j. analysis_group_key j = k) ?J)) ?K). G x) =
          (\<Sum>k\<leftarrow>?K. \<Sum>j\<leftarrow>filter (\<lambda>j. analysis_group_key j = k) ?J. G (f (?vr j)))"
      by (simp add: sum_list_concat_map comp_def)
    also have "\<dots> = (\<Sum>j\<leftarrow>filter (\<lambda>j. analysis_group_key j \<in> set ?K) ?J. G (f (?vr j)))"
      by (rule sum_list_groups) simp
    also have "filter (\<lambda>j. analysis_group_key j \<in> set ?K) ?J =
               filter (\<lambda>j. proposal_id (fst (snd j)) = proposal_id p0) ?J"
      by (rule filter_cong) (auto simp: proposal_of_group_key)
    also have "(\<Sum>j\<leftarrow>filter (\<lambda>j. proposal_id (fst (snd j)) = proposal_id p0) ?J. G (f (?vr j))) =
               (\<Sum>vr\<leftarrow>map ?vr (filter (\<lambda>j. proposal_id (fst (snd j)) = proposal_id p0) ?J).
                  G (f vr))"
      by (simp add: comp_def)
    also have "\<dots> = (\<Sum>vr\<leftarrow>?T. G (f vr))"
      by (simp only: join_results_of_proposal[OF dp dv dm p0 v0 cover])
    finally show ?thesis .
  qed
  have "sql_sum [af row. row \<leftarrow> v_voting_results_analysis vs ps vrs mp,
                  a_proposal_id row = proposal_id p0] =
        sql_sum (concat (map (\<lambda>k. map (\<lambda>j. f (?vr j))
                (filter (\<lambda>j. analysis_group_key j = k) ?J)) ?K))"
    unfolding lhs by (rule sql_sum_of_sums)
  also have "\<dots> = sql_sum (map f ?T)"
    by (rule sql_sum_eqI) (simp_all only: sums list.map_comp comp_def)
  finally show ?thesis by (simp only: comprehension_map_filter)
qed

section \<open>Conservation of the totals\<close>

text \<open>
  C1. Let the database keep its keys: \<^verbatim>\<open>proposal_id\<close> and \<^verbatim>\<open>voting_id\<close> are
  primary keys, the proposal refers to a voting, and the municipality-level results of
  the proposal refer to votings. Then for this proposal the sum over the rows of
  \<^verbatim>\<open>v_voting_results_analysis\<close> equals the sum over the municipality-level rows of
  \<^verbatim>\<open>voting_results\<close>, for each of the five counts: yes votes, no votes, valid votes,
  ballots cast and eligible voters. Sums are SQL sums: \<^verbatim>\<open>NULL\<close> counts are skipped on
  both sides.
\<close>

theorem aggregation_conserves_totals:
  assumes "distinct (map proposal_id (proposals db))"
    and "distinct (map voting_id (votings db))"
    and "p \<in> set (proposals db)"
    and "p_voting_id p \<in> voting_id ` set (votings db)"
    and "\<forall>vr \<in> set (voting_results db).
           vr_proposal_id vr = proposal_id p \<and> geo_level vr = ''municipality'' \<longrightarrow>
           vr_voting_id vr \<in> voting_id ` set (votings db)"
  shows
    "sql_sum [a_ja_stimmen_absolut row. row \<leftarrow> analysis_results_of db,
                a_proposal_id row = proposal_id p] =
     sql_sum [ja_stimmen_absolut vr. vr \<leftarrow> voting_results db,
                vr_proposal_id vr = proposal_id p \<and> geo_level vr = ''municipality''] \<and>
     sql_sum [a_nein_stimmen_absolut row. row \<leftarrow> analysis_results_of db,
                a_proposal_id row = proposal_id p] =
     sql_sum [nein_stimmen_absolut vr. vr \<leftarrow> voting_results db,
                vr_proposal_id vr = proposal_id p \<and> geo_level vr = ''municipality''] \<and>
     sql_sum [a_gueltige_stimmen row. row \<leftarrow> analysis_results_of db,
                a_proposal_id row = proposal_id p] =
     sql_sum [gueltige_stimmen vr. vr \<leftarrow> voting_results db,
                vr_proposal_id vr = proposal_id p \<and> geo_level vr = ''municipality''] \<and>
     sql_sum [a_eingelegte_stimmzettel row. row \<leftarrow> analysis_results_of db,
                a_proposal_id row = proposal_id p] =
     sql_sum [eingelegte_stimmzettel vr. vr \<leftarrow> voting_results db,
                vr_proposal_id vr = proposal_id p \<and> geo_level vr = ''municipality''] \<and>
     sql_sum [a_anzahl_stimmberechtigte row. row \<leftarrow> analysis_results_of db,
                a_proposal_id row = proposal_id p] =
     sql_sum [anzahl_stimmberechtigte vr. vr \<leftarrow> voting_results db,
                vr_proposal_id vr = proposal_id p \<and> geo_level vr = ''municipality'']"
proof -
  from assms(4) obtain v0 where v0: "v0 \<in> set (votings db)" "voting_id v0 = p_voting_id p"
    by auto
  have dm: "distinct (map m_original_bfs (stable_mapping_of db))"
    unfolding stable_mapping_keys by simp
  have cover: "geo_id vr \<in> m_original_bfs ` set (stable_mapping_of db)"
    if "vr \<in> set (voting_results db)" "vr_proposal_id vr = proposal_id p"
      "geo_level vr = ''municipality''" for vr
  proof -
    from that assms(5) obtain v where "v \<in> set (votings db)" "vr_voting_id vr = voting_id v"
      by auto
    with that show ?thesis unfolding stable_mapping_key_set by blast
  qed
  have sum: "sql_sum [af row. row \<leftarrow> analysis_results_of db,
                a_proposal_id row = proposal_id p] =
     sql_sum [f vr. vr \<leftarrow> voting_results db,
                vr_proposal_id vr = proposal_id p \<and> geo_level vr = ''municipality'']"
    if "\<And>k grp. af (analysis_row k grp) = sql_sum (map f grp)" for af f
    unfolding analysis_results_of_def
    using assms(1,2) dm assms(3) v0 cover that by (rule view_sum_of_proposal)
  have "sql_sum [a_ja_stimmen_absolut row. row \<leftarrow> analysis_results_of db,
                a_proposal_id row = proposal_id p] =
     sql_sum [ja_stimmen_absolut vr. vr \<leftarrow> voting_results db,
                vr_proposal_id vr = proposal_id p \<and> geo_level vr = ''municipality'']"
    by (rule sum) (simp add: analysis_row_def split: prod.split)
  moreover have "sql_sum [a_nein_stimmen_absolut row. row \<leftarrow> analysis_results_of db,
                a_proposal_id row = proposal_id p] =
     sql_sum [nein_stimmen_absolut vr. vr \<leftarrow> voting_results db,
                vr_proposal_id vr = proposal_id p \<and> geo_level vr = ''municipality'']"
    by (rule sum) (simp add: analysis_row_def split: prod.split)
  moreover have "sql_sum [a_gueltige_stimmen row. row \<leftarrow> analysis_results_of db,
                a_proposal_id row = proposal_id p] =
     sql_sum [gueltige_stimmen vr. vr \<leftarrow> voting_results db,
                vr_proposal_id vr = proposal_id p \<and> geo_level vr = ''municipality'']"
    by (rule sum) (simp add: analysis_row_def split: prod.split)
  moreover have "sql_sum [a_eingelegte_stimmzettel row. row \<leftarrow> analysis_results_of db,
                a_proposal_id row = proposal_id p] =
     sql_sum [eingelegte_stimmzettel vr. vr \<leftarrow> voting_results db,
                vr_proposal_id vr = proposal_id p \<and> geo_level vr = ''municipality'']"
    by (rule sum) (simp add: analysis_row_def split: prod.split)
  moreover have "sql_sum [a_anzahl_stimmberechtigte row. row \<leftarrow> analysis_results_of db,
                a_proposal_id row = proposal_id p] =
     sql_sum [anzahl_stimmberechtigte vr. vr \<leftarrow> voting_results db,
                vr_proposal_id vr = proposal_id p \<and> geo_level vr = ''municipality'']"
    by (rule sum) (simp add: analysis_row_def split: prod.split)
  ultimately show ?thesis by (intro conjI)
qed

text \<open>
  In \<open>ratio_db\<close> the one row of the analysis view carries the 100 yes votes and the
  1000 valid votes of the two original municipalities.
\<close>

theorem aggregation_conserves_totals_witness:
  "sql_sum [a_ja_stimmen_absolut row. row \<leftarrow> analysis_results_of ratio_db,
              a_proposal_id row = 7] = Some 100 \<and>
   sql_sum [a_gueltige_stimmen row. row \<leftarrow> analysis_results_of ratio_db,
              a_proposal_id row = 7] = Some 1000"
proof -
  have a: "distinct (map proposal_id (proposals ratio_db))" by code_simp
  have b: "distinct (map voting_id (votings ratio_db))" by code_simp
  have c: "proposal_7 \<in> set (proposals ratio_db)" by code_simp
  have d: "p_voting_id proposal_7 \<in> voting_id ` set (votings ratio_db)" by code_simp
  have e: "\<forall>vr \<in> set (voting_results ratio_db).
           vr_proposal_id vr = proposal_id proposal_7 \<and> geo_level vr = ''municipality'' \<longrightarrow>
           vr_voting_id vr \<in> voting_id ` set (votings ratio_db)"
    by code_simp
  have i: "proposal_id proposal_7 = 7" by (simp add: proposal_7_def)
  have o1: "sql_sum [ja_stimmen_absolut vr. vr \<leftarrow> voting_results ratio_db,
                vr_proposal_id vr = 7 \<and> geo_level vr = ''municipality''] = Some 100"
    by code_simp
  have o2: "sql_sum [gueltige_stimmen vr. vr \<leftarrow> voting_results ratio_db,
                vr_proposal_id vr = 7 \<and> geo_level vr = ''municipality''] = Some 1000"
    by code_simp
  from aggregation_conserves_totals [OF a b c d e] o1 o2 show ?thesis
    unfolding i by simp
qed

section \<open>Recomputed percentages\<close>



section \<open>What the conservation check does\<close>











section \<open>Malformed records in the import\<close>








end
